theory Spec2Isabelle
  imports Complex_Main "HOL-Library.AList" "HOL-Library.List_Lexorder" "HOL-Library.Char_ord"
    "HOL-Library.Log_Nat"
begin

section \<open>Python values, errors and dictionaries\<close>

text \<open>
  The exceptions the modelled code can raise. A function that can raise returns
  \<open>error + 'a\<close>, with \<open>Inl\<close> for the exception. The last one is not a Python exception:
  it stands for reading a slot of an \<^verbatim>\<open>np.empty\<close> array that was never written.
\<close>

datatype error =
  IndexError | KeyError | ValueError | ZeroDivisionError | TypeError | StopIteration
  | OverflowError | UninitializedValue

text \<open>Annotation values are strings, or the integers that auto-numbering stores.\<close>

datatype pyval = PyStr string | PyInt int

text \<open>
  \<^verbatim>\<open>x or y\<close> on an offset that may be \<^verbatim>\<open>None\<close>: both \<^verbatim>\<open>None\<close> and \<^verbatim>\<open>0\<close> are falsy,
  so the right operand is taken for either.
\<close>

definition py_or :: "int option \<Rightarrow> int option \<Rightarrow> int option" where
  "py_or x y = (case x of None \<Rightarrow> y | Some v \<Rightarrow> if v = 0 then y else Some v)"

text \<open>\<^verbatim>\<open>xs[i]\<close> on a Python list: a negative index counts from the end.\<close>

definition py_nth :: "'a list \<Rightarrow> int \<Rightarrow> error + 'a" where
  "py_nth xs i =
     (let n = int (length xs)
      in if 0 \<le> i \<and> i < n then Inr (xs ! nat i)
         else if - n \<le> i \<and> i < 0 then Inr (xs ! nat (n + i))
         else Inl IndexError)"

text \<open>
  A dictionary that the code iterates over is an association list with distinct keys:
  \<^verbatim>\<open>d[k] = v\<close> is \<^const>\<open>AList.update\<close>, \<^verbatim>\<open>d[k]\<close> and \<^verbatim>\<open>d.get(k)\<close> are \<^const>\<open>map_of\<close>,
  \<^verbatim>\<open>d.update(other)\<close> stores the items of \<^verbatim>\<open>other\<close> one after the other.
\<close>

definition dict_update :: "('k \<times> 'v) list \<Rightarrow> ('k \<times> 'v) list \<Rightarrow> ('k \<times> 'v) list" where
  "dict_update d other = fold (\<lambda>(k, v). AList.update k v) other d"

section \<open>Floating-point numbers\<close>

text \<open>
  The floating-point numbers of Python and numpy are IEEE 754 binary64 numbers: every
  operation returns the exact result rounded to the nearest representable number, ties
  to the even significand. A finite number is modelled by its rational value.
\<close>

text \<open>Rounding to the nearest integer, ties to the even one.\<close>

definition rne :: "rat \<Rightarrow> int" where
  "rne x =
     (let f = \<lfloor>x\<rfloor>; d = x - of_int f
      in if d < 1 / 2 then f else if d > 1 / 2 then f + 1 else if even f then f else f + 1)"

text \<open>The exponent \<open>e\<close> of a positive number: \<open>2\<^sup>e \<le> x < 2\<^sup>e\<^sup>+\<^sup>1\<close>.\<close>

definition floor_log2 :: "rat \<Rightarrow> int" where
  "floor_log2 x = (if 1 \<le> x then bitlen \<lfloor>x\<rfloor> - 1 else - bitlen (\<lceil>1 / x\<rceil> - 1))"

text \<open>
  The magnitude of the nearest binary64 number to a positive \<open>x\<close>: 53 significant bits,
  the exponent not below that of the subnormal numbers.
\<close>

definition round53 :: "rat \<Rightarrow> rat" where
  "round53 x =
     (let e = max (floor_log2 x) (- 1022); u = 2 powi (e - 52)
      in of_int (rne (x / u)) * u)"

datatype float64 = Finite rat | PInf | NInf | NaN

text \<open>
  The two zeros of binary64 are one value here: they compare equal and a sparse matrix
  stores neither.
\<close>

instantiation float64 :: zero
begin
definition zero_float64 :: float64 where "zero_float64 = Finite 0"
instance ..
end

text \<open>
  Rounding an exact result; a magnitude of \<open>2\<^sup>1\<^sup>0\<^sup>2\<^sup>4\<close> or more, that is, an exponent
  of 1024 or more, overflows.
\<close>

definition fl :: "rat \<Rightarrow> float64" where
  "fl x =
     (if x = 0 then Finite 0
      else let r = round53 \<bar>x\<bar>
           in if 1024 \<le> floor_log2 r then (if x < 0 then NInf else PInf)
              else Finite (if x < 0 then - r else r))"

text \<open>
  The arithmetic of numpy on binary64 numbers: it never raises, and continues with
  \<^verbatim>\<open>inf\<close> and \<^verbatim>\<open>nan\<close>. A nonzero number divided by zero is the infinity of its sign.
\<close>

definition is_neg :: "float64 \<Rightarrow> bool" where
  "is_neg a = (case a of Finite x \<Rightarrow> x < 0 | NInf \<Rightarrow> True | _ \<Rightarrow> False)"

definition inf_of :: "bool \<Rightarrow> float64" where
  "inf_of negative = (if negative then NInf else PInf)"

fun fneg :: "float64 \<Rightarrow> float64" where
  "fneg (Finite x) = Finite (- x)"
| "fneg PInf = NInf"
| "fneg NInf = PInf"
| "fneg NaN = NaN"

fun fadd :: "float64 \<Rightarrow> float64 \<Rightarrow> float64" where
  "fadd (Finite x) (Finite y) = fl (x + y)"
| "fadd NaN b = NaN"
| "fadd a NaN = NaN"
| "fadd PInf NInf = NaN"
| "fadd NInf PInf = NaN"
| "fadd PInf b = PInf"
| "fadd a PInf = PInf"
| "fadd NInf b = NInf"
| "fadd a NInf = NInf"

definition fsub :: "float64 \<Rightarrow> float64 \<Rightarrow> float64" where
  "fsub a b = fadd a (fneg b)"

fun fmul :: "float64 \<Rightarrow> float64 \<Rightarrow> float64" where
  "fmul (Finite x) (Finite y) = fl (x * y)"
| "fmul a b =
     (if a = NaN \<or> b = NaN \<or> a = Finite 0 \<or> b = Finite 0 then NaN
      else inf_of (is_neg a \<noteq> is_neg b))"

fun fdiv :: "float64 \<Rightarrow> float64 \<Rightarrow> float64" where
  "fdiv (Finite x) (Finite y) =
     (if y = 0 then (if x = 0 then NaN else inf_of (x < 0)) else fl (x / y))"
| "fdiv NaN b = NaN"
| "fdiv a NaN = NaN"
| "fdiv (Finite x) b = Finite 0"
| "fdiv a (Finite y) = inf_of (is_neg a \<noteq> (y < 0))"
| "fdiv a b = NaN"

text \<open>
  Python's true division. Two integers give their exact quotient rounded once, an
  OverflowError when it is too large; a zero divisor is a ZeroDivisionError.
\<close>

definition py_int_truediv :: "int \<Rightarrow> int \<Rightarrow> error + float64" where
  "py_int_truediv a b =
     (if b = 0 then Inl ZeroDivisionError
      else case fl (of_int a / of_int b) of
             Finite r \<Rightarrow> Inr (Finite r)
           | _ \<Rightarrow> Inl OverflowError)"

definition py_float_truediv :: "float64 \<Rightarrow> float64 \<Rightarrow> error + float64" where
  "py_float_truediv a b = (if b = Finite 0 then Inl ZeroDivisionError else Inr (fdiv a b))"

text \<open>\<^verbatim>\<open>float(n)\<close> for an integer: the nearest number, or an OverflowError.\<close>

definition py_float :: "int \<Rightarrow> error + float64" where
  "py_float n = (case fl (of_int n) of Finite r \<Rightarrow> Inr (Finite r) | _ \<Rightarrow> Inl OverflowError)"

section \<open>The string store (Segmentation.data)\<close>

text \<open>
  \<^verbatim>\<open>Segmentation.data\<close> is a list whose entries are strings or integer pointers to another
  entry. \<^verbatim>\<open>get_data\<close> follows one pointer.
\<close>

datatype entry = Str string | Ptr int

definition get_data :: "entry list \<Rightarrow> int \<Rightarrow> error + entry" where
  "get_data data index =
     (let index' = (if index < 0 then index + int (length data) else index)
      in case py_nth data index' of
           Inl e \<Rightarrow> Inl e
         | Inr (Ptr v) \<Rightarrow> py_nth data v
         | Inr (Str s) \<Rightarrow> Inr (Str s))"

text \<open>\<^verbatim>\<open>len(Segmentation.get_data(i))\<close>: the length of a string, a TypeError on a pointer.\<close>

definition string_length :: "entry list \<Rightarrow> int \<Rightarrow> error + int" where
  "string_length data index =
     (case get_data data index of
        Inl e \<Rightarrow> Inl e
      | Inr (Str s) \<Rightarrow> Inr (int (length s))
      | Inr (Ptr v) \<Rightarrow> Inl TypeError)"

section \<open>Segment\<close>

record segment =
  str_index :: int
  start :: "int option"
  end' :: "int option"
  annotations :: "(string \<times> pyval) list"

text \<open>
  \<^verbatim>\<open>Segment.__eq__\<close>, for \<^verbatim>\<open>other\<close> a Segment:
  \<^verbatim>\<open>self.str_index == other.str_index and self.start == (other.start or 0)
     and self.end == (other.end or None)\<close>.
  Only the right operand goes through \<^verbatim>\<open>or\<close>; \<^verbatim>\<open>None == 0\<close> is false in Python.
\<close>

definition Segment_eq :: "segment \<Rightarrow> segment \<Rightarrow> bool" where
  "Segment_eq self other \<longleftrightarrow>
     str_index self = str_index other \<and>
     start self = py_or (start other) (Some 0) \<and>
     end' self = py_or (end' other) None"

text \<open>\<^verbatim>\<open>Segment.deepcopy(annotations=None, update)\<close>, as the Segmenter calls it.\<close>

definition deepcopy :: "segment \<Rightarrow> bool \<Rightarrow> segment" where
  "deepcopy self update =
     (if update then self else self\<lparr>annotations := []\<rparr>)"

section \<open>Segmentation\<close>

text \<open>
  A segmentation is its label, the logical sequence of its segments and the dictionary
  \<^verbatim>\<open>str_index_ptr\<close>. The sequence is the \<^verbatim>\<open>buffer\<close>: pages are only written by \<^verbatim>\<open>store\<close>,
  once the buffer holds \<^verbatim>\<open>CHUNK_SIZE\<close> (one million) segments, and the model covers the
  segmentations below that size, for which \<^verbatim>\<open>segments_nbr_in_chunk\<close> is 0 and
  \<^verbatim>\<open>segments_nbr\<close> is the length of the buffer.
\<close>

record segmentation =
  label :: string
  buffer :: "segment list"
  str_index_ptr :: "(int \<times> nat) list"

text \<open>
  \<^verbatim>\<open>_get_str_index_ptr(segments, before_first_segment, offset)\<close>: the counter starts at
  \<^verbatim>\<open>offset\<close>; an entry is written at every segment whose \<^verbatim>\<open>str_index\<close> differs from
  the one before it.
\<close>

fun get_str_index_ptr_loop ::
  "(int \<times> nat) list \<Rightarrow> segment option \<Rightarrow> nat \<Rightarrow> segment list \<Rightarrow> (int \<times> nat) list" where
  "get_str_index_ptr_loop temp_ptr last_seen i [] = temp_ptr"
| "get_str_index_ptr_loop temp_ptr last_seen i (s # segments) =
     get_str_index_ptr_loop
       (case last_seen of
          None \<Rightarrow> AList.update (str_index s) i temp_ptr
        | Some l \<Rightarrow> if str_index s \<noteq> str_index l
                    then AList.update (str_index s) i temp_ptr else temp_ptr)
       (Some s) (i + 1) segments"

definition get_str_index_ptr ::
  "segment list \<Rightarrow> segment option \<Rightarrow> nat \<Rightarrow> (int \<times> nat) list" where
  "get_str_index_ptr segments before_first_segment offset =
     get_str_index_ptr_loop [] before_first_segment offset segments"

text \<open>The constructor: from nothing, and from a list of segments.\<close>

definition Segmentation_empty :: "string \<Rightarrow> segmentation" where
  "Segmentation_empty l = \<lparr>label = l, buffer = [], str_index_ptr = []\<rparr>"

definition Segmentation_of_list :: "segment list \<Rightarrow> string \<Rightarrow> segmentation" where
  "Segmentation_of_list segs l =
     \<lparr>label = l, buffer = segs, str_index_ptr = get_str_index_ptr segs None 0\<rparr>"

text \<open>\<^verbatim>\<open>__getitem__\<close> at a non-negative index.\<close>

definition getitem :: "segmentation \<Rightarrow> nat \<Rightarrow> segment option" where
  "getitem self key = (if key < length (buffer self) then Some (buffer self ! key) else None)"

definition Segmentation_append :: "segmentation \<Rightarrow> segment \<Rightarrow> segmentation" where
  "Segmentation_append self seg =
     self\<lparr>str_index_ptr :=
            (if length (buffer self) = 0 \<or> str_index (last (buffer self)) \<noteq> str_index seg
             then AList.update (str_index seg) (length (buffer self)) (str_index_ptr self)
             else str_index_ptr self),
          buffer := buffer self @ [seg]\<rparr>"

definition Segmentation_extend :: "segmentation \<Rightarrow> segment list \<Rightarrow> segmentation" where
  "Segmentation_extend self segments =
     self\<lparr>str_index_ptr :=
            (if length (buffer self) > 0
             then dict_update
                    (get_str_index_ptr segments (Some (last (buffer self))) (length (buffer self)))
                    (str_index_ptr self)
             else get_str_index_ptr segments None 0),
          buffer := buffer self @ segments\<rparr>"

text \<open>
  \<^verbatim>\<open>_sort\<close>. The keys of \<^verbatim>\<open>str_index_ptr\<close> are sorted; each key \<open>k\<close> stays paired with
  \<^verbatim>\<open>str_index_ptr[k]\<close>. The first loop sets \<^verbatim>\<open>already_sorted\<close>; the second copies, for each
  key, the run of segments that starts at its pointer.
\<close>

fun already_sorted_loop :: "nat list \<Rightarrow> nat \<Rightarrow> bool \<Rightarrow> bool" where
  "already_sorted_loop [] last_ptr already_sorted = already_sorted"
| "already_sorted_loop (p # ps) last_ptr already_sorted =
     already_sorted_loop ps p (if p < last_ptr then False else already_sorted)"

function copy_run :: "segment list \<Rightarrow> int \<Rightarrow> nat \<Rightarrow> segmentation \<Rightarrow> segmentation" where
  "copy_run segs k i sorted_segmentation =
     (if i < length segs \<and> str_index (segs ! i) = k
      then copy_run segs k (i + 1) (Segmentation_append sorted_segmentation (segs ! i))
      else sorted_segmentation)"
  by pat_completeness auto
termination
  by (relation "measure (\<lambda>(segs, k, i, acc). length segs - i)") auto

definition Segmentation_sort :: "segmentation \<Rightarrow> error + segmentation" where
  "Segmentation_sort self =
     (let sorted_items = sort_key fst (str_index_ptr self)
      in if already_sorted_loop (map snd sorted_items) 0 True then Inr self
         else fold
                (\<lambda>(k, p) r.
                   case r of
                     Inl e \<Rightarrow> Inl e
                   | Inr acc \<Rightarrow>
                       if p < length (buffer self) then Inr (copy_run (buffer self) k p acc)
                       else Inl IndexError)
                sorted_items (Inr (Segmentation_empty (label self))))"

section \<open>Utils: expected variety of a subsample\<close>




section \<open>Utils: rounding\<close>

text \<open>
  \<^verbatim>\<open>iround(x) = int(round(x) - .5) + (x > 0)\<close> on a floating-point number. The builtin
  \<^verbatim>\<open>round\<close> breaks ties away from zero in Python 2 and to the even neighbour in Python 3;
  the package supports both, so the version is a parameter. Either way its result is an
  integer that is a binary64 number; the subtraction of one half is a floating-point
  subtraction; \<^verbatim>\<open>int\<close> truncates towards zero. An infinity is an OverflowError and
  \<^verbatim>\<open>nan\<close> a ValueError in both versions.
\<close>

datatype py_version = Py2 | Py3

definition py_int :: "rat \<Rightarrow> int" where
  "py_int x = (if x \<ge> 0 then \<lfloor>x\<rfloor> else \<lceil>x\<rceil>)"

definition py_round :: "py_version \<Rightarrow> rat \<Rightarrow> rat" where
  "py_round v x =
     (case v of
        Py2 \<Rightarrow> (if x \<ge> 0 then of_int \<lfloor>x + 1 / 2\<rfloor> else of_int \<lceil>x - 1 / 2\<rceil>)
      | Py3 \<Rightarrow> of_int (rne x))"

definition iround :: "py_version \<Rightarrow> float64 \<Rightarrow> error + int" where
  "iround v x =
     (case x of
        Finite r \<Rightarrow>
          (case fsub (Finite (py_round v r)) (Finite (1 / 2)) of
             Finite d \<Rightarrow> Inr (py_int d + (if r > 0 then 1 else 0))
           | NaN \<Rightarrow> Inl ValueError
           | _ \<Rightarrow> Inl OverflowError)
      | NaN \<Rightarrow> Inl ValueError
      | _ \<Rightarrow> Inl OverflowError)"

section \<open>Segmenter: sample\<close>

text \<open>
  \<^verbatim>\<open>xs[::step]\<close>: every \<open>step\<close>-th element from the first one for a positive step, from the
  last one backwards for a negative step, a ValueError for step 0.
\<close>

definition slice_step :: "'a list \<Rightarrow> int \<Rightarrow> error + 'a list" where
  "slice_step xs step =
     (if step = 0 then Inl ValueError
      else if step > 0 then Inr [xs ! i. i \<leftarrow> [0..<length xs], int i mod step = 0]
      else Inr [xs ! (length xs - 1 - i). i \<leftarrow> [0..<length xs], int i mod (- step) = 0])"

text \<open>\<^verbatim>\<open>_auto_number\<close>: the annotation \<^verbatim>\<open>annotation_key\<close> of the i-th segment becomes i, from 1.\<close>

definition auto_number :: "segmentation \<Rightarrow> string \<Rightarrow> segmentation" where
  "auto_number segmentation annotation_key =
     segmentation\<lparr>buffer :=
       map (\<lambda>(index, seg). seg\<lparr>annotations :=
              AList.update annotation_key (PyInt (int index + 1)) (annotations seg)\<rparr>)
           (enumerate 0 (buffer segmentation))\<rparr>"

definition auto_number_if :: "string option \<Rightarrow> segmentation \<Rightarrow> segmentation" where
  "auto_number_if auto_number_as segmentation =
     (case auto_number_as of
        None \<Rightarrow> segmentation
      | Some key \<Rightarrow> if length key > 0 then auto_number segmentation key else segmentation)"

text \<open>
  \<^verbatim>\<open>sample\<close>. In mode \<^verbatim>\<open>'random'\<close> the indices come from \<^verbatim>\<open>random.sample\<close>, whose draw
  is the parameter \<open>drawn\<close>. In mode \<^verbatim>\<open>'systematic'\<close> the step is
  \<^verbatim>\<open>iround(1 / (sample_size / len(segmentation)))\<close>: a true division of two integers,
  then a floating-point division of 1 by the quotient; either raises on a zero divisor.
  The loop copies every segment into one of the two outputs.
\<close>

fun sample_loop ::
  "nat list \<Rightarrow> bool \<Rightarrow> nat \<Rightarrow> segment list \<Rightarrow> segmentation \<times> segmentation
     \<Rightarrow> segmentation \<times> segmentation" where
  "sample_loop sampled_indices copy_annotations index [] out = out"
| "sample_loop sampled_indices copy_annotations index (seg # segs) (new_segmentation, neg_segmentation) =
     sample_loop sampled_indices copy_annotations (index + 1) segs
       (if index \<in> set sampled_indices
        then (Segmentation_append new_segmentation (deepcopy seg copy_annotations), neg_segmentation)
        else (new_segmentation, Segmentation_append neg_segmentation (deepcopy seg copy_annotations)))"

definition systematic_step :: "py_version \<Rightarrow> nat \<Rightarrow> nat \<Rightarrow> error + int" where
  "systematic_step v n sample_size =
     (case py_int_truediv (int sample_size) (int n) of
        Inl e \<Rightarrow> Inl e
      | Inr ratio \<Rightarrow>
          (case py_float_truediv (Finite 1) ratio of
             Inl e \<Rightarrow> Inl e
           | Inr step \<Rightarrow> iround v step))"

definition sampled_indices_of ::
  "py_version \<Rightarrow> nat list \<Rightarrow> nat \<Rightarrow> nat \<Rightarrow> string \<Rightarrow> error + nat list" where
  "sampled_indices_of v drawn n sample_size mode =
     (if mode = ''random'' then
        (if sample_size > n then Inl ValueError else Inr (sort drawn))
      else if mode = ''systematic'' then
        (case systematic_step v n sample_size of
           Inl e \<Rightarrow> Inl e
         | Inr step \<Rightarrow> slice_step [0..<n] step)
      else Inl ValueError)"

definition sample ::
  "py_version \<Rightarrow> nat list \<Rightarrow> segmentation \<Rightarrow> nat \<Rightarrow> string \<Rightarrow> string \<Rightarrow> bool \<Rightarrow> string option
     \<Rightarrow> error + segmentation \<times> segmentation" where
  "sample v drawn segmentation sample_size mode lbl copy_annotations auto_number_as =
     (case sampled_indices_of v drawn (length (buffer segmentation)) sample_size mode of
        Inl e \<Rightarrow> Inl e
      | Inr sampled_indices \<Rightarrow>
          (case sample_loop sampled_indices copy_annotations 0 (buffer segmentation)
                  (Segmentation_empty lbl, Segmentation_empty (''NEG_'' @ lbl)) of
             (new_segmentation, neg_segmentation) \<Rightarrow>
               Inr (auto_number_if auto_number_as new_segmentation,
                    auto_number_if auto_number_as neg_segmentation)))"

text \<open>Seven segments over one string, and a sample of size 4.\<close>

definition seven_segments :: "segment list" where
  "seven_segments =
     [\<lparr>str_index = 0, start = Some 0, end' = Some 1, annotations = []\<rparr>,
      \<lparr>str_index = 0, start = Some 1, end' = Some 2, annotations = []\<rparr>,
      \<lparr>str_index = 0, start = Some 2, end' = Some 3, annotations = []\<rparr>,
      \<lparr>str_index = 0, start = Some 3, end' = Some 4, annotations = []\<rparr>,
      \<lparr>str_index = 0, start = Some 4, end' = Some 5, annotations = []\<rparr>,
      \<lparr>str_index = 0, start = Some 5, end' = Some 6, annotations = []\<rparr>,
      \<lparr>str_index = 0, start = Some 6, end' = Some 7, annotations = []\<rparr>]"

section \<open>Segment: containment\<close>

text \<open>
  The materialized offsets: \<^verbatim>\<open>self.start or 0\<close> and \<^verbatim>\<open>self.end or string_length\<close>.
  An \<^verbatim>\<open>end\<close> of 0 is falsy and materializes as the length of the string.
\<close>

definition start_or_0 :: "segment \<Rightarrow> int" where
  "start_or_0 seg = (case py_or (start seg) (Some 0) of None \<Rightarrow> 0 | Some v \<Rightarrow> v)"

definition end_or :: "int \<Rightarrow> segment \<Rightarrow> int" where
  "end_or string_len seg =
     (case py_or (end' seg) (Some string_len) of None \<Rightarrow> string_len | Some v \<Rightarrow> v)"

text \<open>\<^verbatim>\<open>Segment.contains\<close>: the string is only looked up once the first two tests pass.\<close>

definition contains :: "entry list \<Rightarrow> segment \<Rightarrow> segment \<Rightarrow> error + bool" where
  "contains data self other_segment =
     (if str_index self \<noteq> str_index other_segment then Inr False
      else if start_or_0 self > start_or_0 other_segment then Inr False
      else case string_length data (str_index self) of
             Inl e \<Rightarrow> Inl e
           | Inr len \<Rightarrow> Inr (\<not> end_or len self < end_or len other_segment))"

text \<open>
  \<^verbatim>\<open>Segment.get_contained_segments\<close>. The binary search moves \<^verbatim>\<open>start_search\<close> and
  \<^verbatim>\<open>end_search\<close> until they are one apart; reading a segment out of range raises
  IndexError, which is \<open>None\<close> here.
\<close>

function search_start :: "segment list \<Rightarrow> int \<Rightarrow> nat \<Rightarrow> nat \<Rightarrow> nat option" where
  "search_start segs start_pos start_search end_search =
     (if int end_search - int start_search > 1
      then (let middle = (end_search + start_search) div 2
            in if middle < length segs
               then (if start_or_0 (segs ! middle) \<ge> start_pos
                     then search_start segs start_pos start_search middle
                     else search_start segs start_pos middle end_search)
               else None)
      else Some start_search)"
  by pat_completeness auto
termination
  by (relation "measure (\<lambda>(segs, s, lo, hi). hi - lo)") auto

text \<open>The final loop: it stops at the first segment of another string or starting after
  \<^verbatim>\<open>end\<close>, and keeps the segments that end at or before \<^verbatim>\<open>end\<close>.\<close>

fun collect_contained :: "int \<Rightarrow> int \<Rightarrow> int \<Rightarrow> segment list \<Rightarrow> segment list" where
  "collect_contained si end_pos string_len [] = []"
| "collect_contained si end_pos string_len (seg # segs) =
     (if si \<noteq> str_index seg \<or> start_or_0 seg > end_pos then []
      else if end_pos \<ge> end_or string_len seg
           then seg # collect_contained si end_pos string_len segs
           else collect_contained si end_pos string_len segs)"

text \<open>
  The body of the \<^verbatim>\<open>try\<close> block; \<open>None\<close> is an exception, which the bare \<^verbatim>\<open>except\<close>
  turns into the empty list. A missing key of \<^verbatim>\<open>str_index_ptr\<close> is one.
\<close>

definition contained_try ::
  "segment \<Rightarrow> int \<Rightarrow> segmentation \<Rightarrow> segment list option" where
  "contained_try self string_len segmentation =
     (case map_of (str_index_ptr segmentation) (str_index self) of
        None \<Rightarrow> None
      | Some p \<Rightarrow>
          (let end_search =
                 Min (set (filter (\<lambda>x. x > p) (map snd (str_index_ptr segmentation))
                           @ [length (buffer segmentation)]))
           in case search_start (buffer segmentation) (start_or_0 self) p end_search of
                None \<Rightarrow> None
              | Some start_search \<Rightarrow>
                  (case getitem segmentation start_search of
                     None \<Rightarrow> None
                   | Some seg \<Rightarrow>
                       Some (collect_contained (str_index self) (end_or string_len self) string_len
                               (drop (if start_or_0 seg \<ge> start_or_0 self
                                      then start_search else start_search + 1)
                                  (buffer segmentation))))))"

definition get_contained_segments ::
  "entry list \<Rightarrow> segment \<Rightarrow> segmentation \<Rightarrow> error + segment list" where
  "get_contained_segments data self segmentation =
     (case string_length data (str_index self) of
        Inl e \<Rightarrow> Inl e
      | Inr string_len \<Rightarrow>
          Inr (case contained_try self string_len segmentation of
                 None \<Rightarrow> []
               | Some ret \<Rightarrow> ret))"

text \<open>The entries that \<^verbatim>\<open>_get_str_index_ptr\<close> writes, in order: one per run of equal
  \<^verbatim>\<open>str_index\<close>.\<close>

fun run_starts :: "int option \<Rightarrow> nat \<Rightarrow> segment list \<Rightarrow> (int \<times> nat) list" where
  "run_starts prev i [] = []"
| "run_starts prev i (s # segs) =
     (if prev = Some (str_index s) then [] else [(str_index s, i)])
     @ run_starts (Some (str_index s)) (i + 1) segs"

text \<open>
  Containment as the specification words it: the two segments resolve to the same
  backing string and the materialized range of the second lies within that of the first.
\<close>

definition lies_within_spec :: "entry list \<Rightarrow> segment \<Rightarrow> segment \<Rightarrow> bool" where
  "lies_within_spec data a s =
     (case (get_data data (str_index a), get_data data (str_index s)) of
        (Inr (Str x), Inr (Str y)) \<Rightarrow>
           x = y \<and> start_or_0 a \<le> start_or_0 s
           \<and> end_or (int (length y)) s \<le> end_or (int (length x)) a
      | _ \<Rightarrow> False)"

text \<open>
  The segments of the scenario \<^verbatim>\<open>"un texte"\<close>: the word \<^verbatim>\<open>texte\<close>, the three vowels in
  order, and two segments in descending order of \<^verbatim>\<open>start\<close>.
\<close>

definition word_texte :: segment where
  "word_texte = \<lparr>str_index = 0, start = Some 3, end' = Some 8, annotations = []\<rparr>"

definition vowels :: "segment list" where
  "vowels =
     [\<lparr>str_index = 0, start = Some 0, end' = Some 1, annotations = []\<rparr>,
      \<lparr>str_index = 0, start = Some 4, end' = Some 5, annotations = []\<rparr>,
      \<lparr>str_index = 0, start = Some 7, end' = Some 8, annotations = []\<rparr>]"

definition descending_pair :: "segment list" where
  "descending_pair =
     [\<lparr>str_index = 0, start = Some 5, end' = Some 6, annotations = []\<rparr>,
      \<lparr>str_index = 0, start = Some 1, end' = Some 2, annotations = []\<rparr>]"

section \<open>Building a segmentation\<close>

text \<open>
  A segmentation built from the empty one by a sequence of \<^verbatim>\<open>append\<close> and \<^verbatim>\<open>extend\<close> calls.
\<close>

datatype operation = Append segment | Extend "segment list"

fun apply_operation :: "segmentation \<Rightarrow> operation \<Rightarrow> segmentation" where
  "apply_operation S (Append seg) = Segmentation_append S seg"
| "apply_operation S (Extend segs) = Segmentation_extend S segs"

definition build :: "string \<Rightarrow> operation list \<Rightarrow> segmentation" where
  "build l ops = foldl apply_operation (Segmentation_empty l) ops"

text \<open>
  The segments of every \<^verbatim>\<open>str_index\<close> are contiguous: no \<^verbatim>\<open>str_index\<close> starts two runs. The
  position of the first segment with a given \<^verbatim>\<open>str_index\<close>.
\<close>

definition contiguous_runs :: "segment list \<Rightarrow> bool" where
  "contiguous_runs segs \<longleftrightarrow> distinct (map fst (run_starts None 0 segs))"

definition first_position :: "int \<Rightarrow> segment list \<Rightarrow> nat" where
  "first_position i segs = length (takeWhile (\<lambda>s. str_index s \<noteq> i) segs)"

section \<open>Arrays and sparse matrices\<close>

text \<open>
  A two-dimensional numpy array is its shape and its entries. The element type stands for
  the numbers the arrays hold: the integers for an array of an integer dtype, the reals
  for the floating-point values of an array of a floating-point dtype.
\<close>

record 'v ndarray =
  nrows :: nat
  ncols :: nat
  elem :: "nat \<Rightarrow> nat \<Rightarrow> 'v"

definition np_transpose :: "'v ndarray \<Rightarrow> 'v ndarray" where
  "np_transpose a = \<lparr>nrows = ncols a, ncols = nrows a, elem = (\<lambda>i j. elem a j i)\<rparr>"

text \<open>\<^verbatim>\<open>np.dot\<close> of two matrices whose inner dimensions agree.\<close>

definition np_dot :: "'v::semiring_0 ndarray \<Rightarrow> 'v ndarray \<Rightarrow> 'v ndarray" where
  "np_dot a b =
     \<lparr>nrows = nrows a, ncols = ncols b,
      elem = (\<lambda>i j. \<Sum>k\<leftarrow>[0..<ncols a]. elem a i k * elem b k j)\<rparr>"


text \<open>
  A scipy \<^verbatim>\<open>dok_matrix\<close> is a shape and a dictionary from index pairs to the entries
  that are not zero: storing 0 at a key removes the key. Indexing outside the shape
  raises IndexError.
\<close>

record 'v dok =
  shape :: "nat \<times> nat"
  items :: "((nat \<times> nat) \<times> 'v) list"

definition dok_matrix :: "nat \<Rightarrow> nat \<Rightarrow> 'v dok" where
  "dok_matrix n m = \<lparr>shape = (n, m), items = []\<rparr>"

definition in_shape :: "'v dok \<Rightarrow> nat \<times> nat \<Rightarrow> bool" where
  "in_shape d key \<longleftrightarrow> fst key < fst (shape d) \<and> snd key < snd (shape d)"

definition dok_setitem :: "'v::zero dok \<Rightarrow> nat \<times> nat \<Rightarrow> 'v \<Rightarrow> error + 'v dok" where
  "dok_setitem d key v =
     (if \<not> in_shape d key then Inl IndexError
      else if v = 0 then Inr (d\<lparr>items := AList.delete key (items d)\<rparr>)
      else Inr (d\<lparr>items := AList.update key v (items d)\<rparr>))"

text \<open>\<^verbatim>\<open>d.get(key, default)\<close>; the default may be \<^verbatim>\<open>None\<close>.\<close>

definition dok_get :: "'v dok \<Rightarrow> nat \<times> nat \<Rightarrow> 'v option \<Rightarrow> error + 'v option" where
  "dok_get d key dflt =
     (if \<not> in_shape d key then Inl IndexError
      else case map_of (items d) key of None \<Rightarrow> Inr dflt | Some v \<Rightarrow> Inr (Some v))"

definition nnz :: "'v dok \<Rightarrow> nat" where
  "nnz d = length (items d)"

text \<open>\<^verbatim>\<open>d.A\<close>, the dense array, and \<^verbatim>\<open>dok_matrix(array)\<close>, which keeps the nonzero entries.\<close>

definition todense :: "'v::zero dok \<Rightarrow> 'v ndarray" where
  "todense d =
     \<lparr>nrows = fst (shape d), ncols = snd (shape d),
      elem = (\<lambda>i j. case map_of (items d) (i, j) of None \<Rightarrow> 0 | Some v \<Rightarrow> v)\<rparr>"

definition dok_of_array :: "'v::zero ndarray \<Rightarrow> 'v dok" where
  "dok_of_array a =
     \<lparr>shape = (nrows a, ncols a),
      items = [((i, j), elem a i j). i \<leftarrow> [0..<nrows a], j \<leftarrow> [0..<ncols a], elem a i j \<noteq> 0]\<rparr>"

section \<open>Table\<close>

text \<open>
  One record for the class \<^verbatim>\<open>Table\<close> and its subclasses. \<open>'x\<close> is the type of the
  backing store \<^verbatim>\<open>values\<close> (field \<open>cells\<close>): a \<^verbatim>\<open>dok_matrix\<close> for the pivot crosstabs, an
  array of rows for the flat ones. \<^verbatim>\<open>missing\<close> and the result of \<^verbatim>\<open>get\<close> are a value or
  \<^verbatim>\<open>None\<close>. A flat table has no \<^verbatim>\<open>row_mapping\<close>; it is the empty map there.
\<close>

record ('r, 'c, 'x, 'v) table =
  row_ids :: "'r list"
  col_ids :: "'c list"
  cells :: 'x
  header_row_id :: string
  header_row_type :: string
  header_col_id :: string
  header_col_type :: string
  col_type :: "('c \<times> string) list"
  class_col_id :: "'c option"
  missing :: "'v option"
  cached_row_id :: "string option"
  row_mapping :: "'r \<rightharpoonup> nat"
  col_mapping :: "'c \<rightharpoonup> nat"

type_synonym ('r, 'c, 'v) pivot = "('r, 'c, 'v dok, 'v) table"

text \<open>\<^verbatim>\<open>dict(map(reversed, enumerate(ids)))\<close>: the last position of each id.\<close>

definition enum_mapping :: "'a list \<Rightarrow> 'a \<rightharpoonup> nat" where
  "enum_mapping ids = map_of (rev (zip ids [0..<length ids]))"

text \<open>\<^verbatim>\<open>dict((k, t) for k in ids)\<close>.\<close>

definition const_dict :: "'a list \<Rightarrow> 'b \<Rightarrow> ('a \<times> 'b) list" where
  "const_dict ids t = dict_update [] (map (\<lambda>k. (k, t)) ids)"

text \<open>
  \<^verbatim>\<open>Table.__init__\<close> on a dictionary of values: the first value fixes the dtype
  (StopIteration on an empty dictionary), the mappings follow the order of the ids, and
  every item is stored in a fresh \<^verbatim>\<open>dok_matrix\<close>; an id that is not listed is a KeyError.
\<close>

fun fill_dok ::
  "('r \<rightharpoonup> nat) \<Rightarrow> ('c \<rightharpoonup> nat) \<Rightarrow> (('r \<times> 'c) \<times> 'v::zero) list \<Rightarrow> 'v dok \<Rightarrow> error + 'v dok" where
  "fill_dok rm cm [] d = Inr d"
| "fill_dok rm cm (((r, c), v) # kvs) d =
     (case (rm r, cm c) of
        (Some i, Some j) \<Rightarrow>
          (case dok_setitem d (i, j) v of
             Inl e \<Rightarrow> Inl e
           | Inr d' \<Rightarrow> fill_dok rm cm kvs d')
      | _ \<Rightarrow> Inl KeyError)"

definition Table_of_dict ::
  "'r list \<Rightarrow> 'c list \<Rightarrow> (('r \<times> 'c) \<times> 'v::zero) list \<Rightarrow> string \<Rightarrow> string \<Rightarrow> string \<Rightarrow> string
     \<Rightarrow> ('c \<times> string) list \<Rightarrow> 'c option \<Rightarrow> 'v option \<Rightarrow> string option
     \<Rightarrow> error + ('r, 'c, 'v) pivot" where
  "Table_of_dict rids cids vals hrid hrtype hcid hctype ctype ccid miss cached =
     (if vals = [] then Inl StopIteration
      else case fill_dok (enum_mapping rids) (enum_mapping cids) vals
                  (dok_matrix (length rids) (length cids)) of
             Inl e \<Rightarrow> Inl e
           | Inr d \<Rightarrow>
               Inr \<lparr>row_ids = rids, col_ids = cids, cells = d,
                    header_row_id = hrid, header_row_type = hrtype,
                    header_col_id = hcid, header_col_type = hctype,
                    col_type = ctype, class_col_id = ccid, missing = miss,
                    cached_row_id = cached,
                    row_mapping = enum_mapping rids, col_mapping = enum_mapping cids\<rparr>)"

text \<open>
  \<^verbatim>\<open>Table.get(row, col, missing)\<close> on a pivot crosstab: the argument replaces the
  table's sentinel unless it is \<^verbatim>\<open>None\<close>; any exception gives the sentinel.
\<close>

definition Table_get :: "('r, 'c, 'v) pivot \<Rightarrow> 'r \<Rightarrow> 'c \<Rightarrow> 'v option \<Rightarrow> 'v option" where
  "Table_get self row col miss =
     (let miss' = (case miss of None \<Rightarrow> missing self | Some x \<Rightarrow> Some x)
      in case (row_mapping self row, col_mapping self col) of
           (Some i, Some j) \<Rightarrow>
             (case dok_get (cells self) (i, j) miss' of Inl e \<Rightarrow> miss' | Inr r \<Rightarrow> r)
         | _ \<Rightarrow> miss')"

text \<open>\<^verbatim>\<open>PivotCrosstab.to_numpy\<close>.\<close>

definition to_numpy :: "('r, 'c, 'v::zero) pivot \<Rightarrow> 'v ndarray" where
  "to_numpy self = todense (cells self)"

text \<open>
  \<^verbatim>\<open>PivotCrosstab.from_numpy\<close>, with its defaults for \<^verbatim>\<open>class_col_id\<close>, \<^verbatim>\<open>missing\<close> and
  \<^verbatim>\<open>_cached_row_id\<close>: the table that the class method builds once the array is accepted.
\<close>

definition from_numpy ::
  "'r list \<Rightarrow> 'c list \<Rightarrow> 'v::zero ndarray \<Rightarrow> string \<Rightarrow> string \<Rightarrow> string \<Rightarrow> string
     \<Rightarrow> ('c \<times> string) list \<Rightarrow> ('r, 'c, 'v) pivot" where
  "from_numpy rids cids np_array hrid hrtype hcid hctype ctype =
     \<lparr>row_ids = rids, col_ids = cids, cells = dok_of_array np_array,
      header_row_id = hrid, header_row_type = hrtype,
      header_col_id = hcid, header_col_type = hctype,
      col_type = ctype, class_col_id = None, missing = None, cached_row_id = None,
      row_mapping = enum_mapping rids, col_mapping = enum_mapping cids\<rparr>"

section \<open>IntPivotCrosstab.to_association_matrix\<close>










section \<open>Conversions between pivot and weighted flat crosstabs\<close>

text \<open>\<^verbatim>\<open>x or y\<close> on a string: the empty string is falsy.\<close>

definition str_or :: "string \<Rightarrow> string \<Rightarrow> string" where
  "str_or x y = (if x = [] then y else x)"

text \<open>
  A weighted flat crosstab stores a numpy array of rows \<^verbatim>\<open>(col, row, val)\<close>. The array is
  allocated with \<^verbatim>\<open>np.empty\<close>, so a slot is \<open>None\<close> until a row is written into it.
\<close>

type_synonym ('r, 'c, 'v) weighted_flat = "(nat, string, ('c \<times> 'r \<times> 'v) option list, 'v) table"

text \<open>
  The double loop of \<^verbatim>\<open>PivotCrosstab.to_weighted_flat\<close> over the rows and the columns:
  a zero count is skipped, any other is written at \<^verbatim>\<open>row_counter\<close> (IndexError beyond
  the end of the array).
\<close>

fun fill_weighted ::
  "('r, 'c, 'v::zero) pivot \<Rightarrow> ('r \<times> 'c) list \<Rightarrow> nat \<Rightarrow> ('c \<times> 'r \<times> 'v) option list
     \<Rightarrow> error + ('c \<times> 'r \<times> 'v) option list" where
  "fill_weighted self [] row_counter new_values = Inr new_values"
| "fill_weighted self ((row_id, col_id) # rest) row_counter new_values =
     (case Table_get self row_id col_id (Some 0) of
        None \<Rightarrow> Inl TypeError
      | Some count \<Rightarrow>
          if count = 0 then fill_weighted self rest row_counter new_values
          else if row_counter < length new_values
          then fill_weighted self rest (row_counter + 1)
                 (new_values[row_counter := Some (col_id, row_id, count)])
          else Inl IndexError)"

text \<open>
  \<^verbatim>\<open>PivotCrosstab.to_weighted_flat\<close>; \<^verbatim>\<open>IntPivotCrosstab.to_weighted_flat\<close> is the same
  function on integer cells. The array has \<^verbatim>\<open>self.values.nnz\<close> slots.
\<close>

definition to_weighted_flat :: "('r, 'c, 'v::zero) pivot \<Rightarrow> error + ('r, 'c, 'v) weighted_flat" where
  "to_weighted_flat self =
     (let first_col_id = str_or (header_row_id self) ''__column__'';
          new_col_ids =
            (if length (row_ids self) > 1
             then [first_col_id, str_or (header_col_id self) ''__row__'']
             else [first_col_id]);
          new_cached_row_id =
            (if length (row_ids self) > 1 then None else Some (header_col_id self));
          n = nnz (cells self)
      in case fill_weighted self (List.product (row_ids self) (col_ids self)) 0
                (replicate n None) of
           Inl e \<Rightarrow> Inl e
         | Inr new_values \<Rightarrow>
             Inr \<lparr>row_ids = [1..<n + 1], col_ids = new_col_ids @ [''__weight__''],
                  cells = new_values,
                  header_row_id = ''__col__'', header_row_type = ''string'',
                  header_col_id = ''__id__'', header_col_type = ''continuous'',
                  col_type = AList.update ''__weight__'' ''continuous''
                               (const_dict new_col_ids ''discrete''),
                  class_col_id = None, missing = missing self,
                  cached_row_id = new_cached_row_id,
                  row_mapping = Map.empty,
                  col_mapping = enum_mapping (new_col_ids @ [''__weight__''])\<rparr>)"

text \<open>\<^verbatim>\<open>np.unique(xs).tolist()\<close>: the distinct elements in ascending order.\<close>

definition np_unique :: "'a::linorder list \<Rightarrow> 'a list" where
  "np_unique xs = sort (remdups xs)"

text \<open>
  The loop of \<^verbatim>\<open>WeightedFlatCrosstab.to_pivot\<close> that stores each weight. The matrix is a
  \<^verbatim>\<open>dok_matrix\<close> of dtype \<^verbatim>\<open>np.float\<close>, so the assignment converts the weight to a
  floating-point number: \<open>conv\<close> is that conversion.
\<close>

fun pivot_loop ::
  "('w \<Rightarrow> 'v) \<Rightarrow> ('r \<rightharpoonup> nat) \<Rightarrow> ('c \<rightharpoonup> nat) \<Rightarrow> ('c \<times> 'r \<times> 'w) list \<Rightarrow> 'v::zero dok
     \<Rightarrow> error + 'v dok" where
  "pivot_loop conv rm cm [] new_values = Inr new_values"
| "pivot_loop conv rm cm ((c, r, v) # rest) new_values =
     (case (rm r, cm c) of
        (Some row, Some col) \<Rightarrow>
          (case dok_setitem new_values (row, col) (conv v) of
             Inl e \<Rightarrow> Inl e
           | Inr new_values' \<Rightarrow> pivot_loop conv rm cm rest new_values')
      | _ \<Rightarrow> Inl KeyError)"

text \<open>
  \<^verbatim>\<open>WeightedFlatCrosstab.to_pivot\<close>: a \<^verbatim>\<open>PivotCrosstab\<close> over the floating-point matrix, with
  the sentinel of the flat table.
\<close>

definition to_pivot ::
  "('w \<Rightarrow> 'v) \<Rightarrow> ('r::linorder, 'c::linorder, 'w) weighted_flat
     \<Rightarrow> error + ('r, 'c, 'v::zero) pivot" where
  "to_pivot conv self =
     (case (py_nth (col_ids self) 0, py_nth (col_ids self) 1) of
        (Inr new_header_row_id, Inr new_header_col_id) \<Rightarrow>
          (case those (cells self) of
             None \<Rightarrow> Inl UninitializedValue
           | Some rows \<Rightarrow>
               (let new_col_ids = np_unique (map fst rows);
                    new_row_ids = np_unique (map (fst \<circ> snd) rows)
                in case pivot_loop conv (enum_mapping new_row_ids) (enum_mapping new_col_ids) rows
                          (dok_matrix (length new_row_ids) (length new_col_ids)) of
                     Inl e \<Rightarrow> Inl e
                   | Inr new_values \<Rightarrow>
                       Inr \<lparr>row_ids = new_row_ids, col_ids = new_col_ids, cells = new_values,
                            header_row_id = new_header_row_id, header_row_type = ''discrete'',
                            header_col_id = new_header_col_id, header_col_type = ''discrete'',
                            col_type = const_dict new_col_ids ''continuous'',
                            class_col_id = None, missing = map_option conv (missing self),
                            cached_row_id = None,
                            row_mapping = enum_mapping new_row_ids,
                            col_mapping = enum_mapping new_col_ids\<rparr>))
      | _ \<Rightarrow> Inl IndexError)"

text \<open>
  The conversion of an integer to the nearest floating-point number, and the cast of
  \<^verbatim>\<open>astype(np.int)\<close> back to a 64-bit integer: the fraction is dropped, and what does not
  fit (also \<^verbatim>\<open>inf\<close> and \<^verbatim>\<open>nan\<close>) becomes \<open>- 2\<^sup>6\<^sup>3\<close>, as on the x86-64 processors.
\<close>

definition float64_of_int :: "int \<Rightarrow> float64" where
  "float64_of_int v = fl (of_int v)"

definition astype_int :: "float64 \<Rightarrow> int" where
  "astype_int x =
     (case x of
        Finite r \<Rightarrow>
          (let t = (if 0 \<le> r then \<lfloor>r\<rfloor> else \<lceil>r\<rceil>)
           in if - (2 ^ 63) \<le> t \<and> t < 2 ^ 63 then t else - (2 ^ 63))
      | _ \<Rightarrow> - (2 ^ 63))"

text \<open>
  \<^verbatim>\<open>IntWeightedFlatCrosstab.to_pivot\<close>: the pivot crosstab of the parent class, whose
  floating-point matrix is then cast to integers; the sentinel stays the integer it was.
\<close>

definition IntWeightedFlatCrosstab_to_pivot ::
  "('r::linorder, 'c::linorder, int) weighted_flat \<Rightarrow> error + ('r, 'c, int) pivot" where
  "IntWeightedFlatCrosstab_to_pivot self =
     (case to_pivot float64_of_int self of
        Inl e \<Rightarrow> Inl e
      | Inr pivot \<Rightarrow>
          Inr \<lparr>row_ids = row_ids pivot, col_ids = col_ids pivot,
               cells = \<lparr>shape = shape (cells pivot),
                        items = map (\<lambda>(k, v). (k, astype_int v)) (items (cells pivot))\<rparr>,
               header_row_id = header_row_id pivot, header_row_type = header_row_type pivot,
               header_col_id = header_col_id pivot, header_col_type = header_col_type pivot,
               col_type = col_type pivot, class_col_id = class_col_id pivot,
               missing = missing self, cached_row_id = cached_row_id pivot,
               row_mapping = row_mapping pivot, col_mapping = col_mapping pivot\<rparr>)"

text \<open>
  A well-formed pivot crosstab: the ids are distinct, the mappings send them to distinct
  indices, and the sparse store holds nonzero values at distinct keys inside its shape,
  each at the indices of a row id and a column id.
\<close>

definition pivot_ok :: "('r, 'c, 'v::zero) pivot \<Rightarrow> bool" where
  "pivot_ok T \<longleftrightarrow>
     distinct (row_ids T) \<and> distinct (col_ids T) \<and>
     inj_on (row_mapping T) (set (row_ids T)) \<and> inj_on (col_mapping T) (set (col_ids T)) \<and>
     (\<forall>r \<in> set (row_ids T). row_mapping T r \<noteq> None) \<and>
     (\<forall>c \<in> set (col_ids T). col_mapping T c \<noteq> None) \<and>
     distinct (map fst (items (cells T))) \<and>
     (\<forall>kv \<in> set (items (cells T)).
        snd kv \<noteq> 0 \<and> in_shape (cells T) (fst kv) \<and>
        (\<exists>r \<in> set (row_ids T). row_mapping T r = Some (fst (fst kv))) \<and>
        (\<exists>c \<in> set (col_ids T). col_mapping T c = Some (snd (fst kv))))"

text \<open>The value stored for a pair of ids, if any.\<close>

definition stored :: "('r, 'c, 'v) pivot \<Rightarrow> 'r \<Rightarrow> 'c \<Rightarrow> 'v option" where
  "stored T r c =
     (case (row_mapping T r, col_mapping T c) of
        (Some i, Some j) \<Rightarrow> map_of (items (cells T)) (i, j)
      | _ \<Rightarrow> None)"

text \<open>
  A crosstab of two contexts and two units, with the counts 2 and 3 on its diagonal, and
  the same crosstab with the count \<open>2\<^sup>5\<^sup>3 + 1\<close> in place of 2.
\<close>

definition two_by_two :: "(string, string, int) pivot" where
  "two_by_two =
     \<lparr>row_ids = [''b'', ''a''], col_ids = [''x'', ''y''],
      cells = \<lparr>shape = (2, 2), items = [((0, 0), 2), ((1, 1), 3)]\<rparr>,
      header_row_id = ''__unit__'', header_row_type = ''string'',
      header_col_id = ''__context__'', header_col_type = ''string'',
      col_type = const_dict [''x'', ''y''] ''continuous'',
      class_col_id = None, missing = Some 0, cached_row_id = None,
      row_mapping = enum_mapping [''b'', ''a''], col_mapping = enum_mapping [''x'', ''y'']\<rparr>"

definition big_count :: "(string, string, int) pivot" where
  "big_count =
     two_by_two\<lparr>cells := \<lparr>shape = (2, 2), items = [((0, 0), 2 ^ 53 + 1), ((1, 1), 3)]\<rparr>\<rparr>"

section \<open>Processor: counting and co-occurrence in a sliding window\<close>

text \<open>
  \<^verbatim>\<open>xs[start:end]\<close> on a string: an absent bound is the end of the string on its side, a
  negative one counts from the end, and both are clamped to the string.
\<close>

definition slice_index :: "nat \<Rightarrow> int option \<Rightarrow> nat \<Rightarrow> nat" where
  "slice_index n idx dflt =
     (case idx of
        None \<Rightarrow> dflt
      | Some i \<Rightarrow> if i < 0 then nat (max (i + int n) 0) else min (nat i) n)"

definition py_slice :: "'a list \<Rightarrow> int option \<Rightarrow> int option \<Rightarrow> 'a list" where
  "py_slice xs start_pos end_pos =
     (let lo = slice_index (length xs) start_pos 0;
          hi = slice_index (length xs) end_pos (length xs)
      in take (hi - lo) (drop lo xs))"

text \<open>\<^verbatim>\<open>Segment.get_content\<close>: slicing a pointer entry is a TypeError.\<close>

definition get_content :: "entry list \<Rightarrow> segment \<Rightarrow> error + string" where
  "get_content data seg =
     (case get_data data (str_index seg) of
        Inl e \<Rightarrow> Inl e
      | Inr (Ptr v) \<Rightarrow> Inl TypeError
      | Inr (Str s) \<Rightarrow> Inr (py_slice s (start seg) (end' seg)))"

text \<open>
  The list of units in final format: the value of the annotation key (\<^verbatim>\<open>'__none__'\<close> when
  the segment lacks it) or, without a key, the content of the segment.
\<close>

fun unit_list_of :: "entry list \<Rightarrow> string option \<Rightarrow> segment list \<Rightarrow> error + pyval list" where
  "unit_list_of data unit_annotation_key [] = Inr []"
| "unit_list_of data unit_annotation_key (u # us) =
     (case (case unit_annotation_key of
              Some key \<Rightarrow>
                Inr (case map_of (annotations u) key of
                       None \<Rightarrow> PyStr ''__none__'' | Some v \<Rightarrow> v)
            | None \<Rightarrow> map_sum id PyStr (get_content data u)) of
        Inl e \<Rightarrow> Inl e
      | Inr unit \<Rightarrow>
          (case unit_list_of data unit_annotation_key us of
             Inl e \<Rightarrow> Inl e
           | Inr units \<Rightarrow> Inr (unit # units)))"

text \<open>\<^verbatim>\<open>window_freq[u] = window_freq.get(u, 0) + 1\<close>.\<close>

definition window_freq_add :: "('c \<times> int) list \<Rightarrow> 'c \<Rightarrow> ('c \<times> int) list" where
  "window_freq_add window_freq u =
     AList.update u ((case map_of window_freq u of None \<Rightarrow> 0 | Some n \<Rightarrow> n) + 1) window_freq"

text \<open>\<^verbatim>\<open>dict([((window_str, k), v) for (k, v) in iteritems(window_freq)])\<close>.\<close>

definition window_items :: "'r \<Rightarrow> ('c \<times> int) list \<Rightarrow> (('r \<times> 'c) \<times> int) list" where
  "window_items window_str window_freq =
     dict_update [] (map (\<lambda>(k, v). ((window_str, k), v)) window_freq)"

text \<open>
  The loop of \<^verbatim>\<open>count_in_window\<close> over the window indices from 1, for units of sequence
  length 1 (CASE 2 of the function): the unit that leaves the window is decremented (a
  KeyError if it has no entry), the unit that enters is incremented, and the counts of
  the window are stored under the row id \<^verbatim>\<open>text(window_index + 1)\<close>. The two indices into
  \<^verbatim>\<open>unit_list\<close> stay below its length by the bound of the loop. The conversion \<^verbatim>\<open>text\<close> of
  a number to a string is the parameter \<open>text_of\<close>.
\<close>

fun window_loop ::
  "(nat \<Rightarrow> 'r) \<Rightarrow> 'c list \<Rightarrow> nat \<Rightarrow> nat list \<Rightarrow> ('c \<times> int) list \<Rightarrow> (('r \<times> 'c) \<times> int) list \<Rightarrow> nat
     \<Rightarrow> error + (('r \<times> 'c) \<times> int) list \<times> nat" where
  "window_loop text_of unit_list window_size [] window_freq freq window_type =
     Inr (freq, window_type)"
| "window_loop text_of unit_list window_size (window_index # rest) window_freq freq window_type =
     (case map_of window_freq (unit_list ! (window_index - 1)) of
        None \<Rightarrow> Inl KeyError
      | Some n \<Rightarrow>
          (let window_freq1 = AList.update (unit_list ! (window_index - 1)) (n - 1) window_freq;
               new_unit = unit_list ! (window_index + window_size - 1);
               window_freq2 = window_freq_add window_freq1 new_unit;
               window_type' = window_index + 1;
               freq' = dict_update freq (window_items (text_of window_type') window_freq2)
           in window_loop text_of unit_list window_size rest window_freq2 freq' window_type'))"

text \<open>
  \<^verbatim>\<open>count_in_window\<close> on a list of units. \<^verbatim>\<open>list(set(unit_list))\<close> lists the distinct units
  in the order in which Python iterates the set; that list is the parameter
  \<open>unit_types\<close>. Without enough units the dictionary of counts stays empty and the
  constructor of the table raises StopIteration.
\<close>

definition count_units_in_window ::
  "(nat \<Rightarrow> 'r) \<Rightarrow> 'c list \<Rightarrow> 'c list \<Rightarrow> nat \<Rightarrow> error + ('r, 'c, int) pivot" where
  "count_units_in_window text_of unit_types unit_list window_size =
     (if length unit_list \<ge> window_size \<and> window_size \<ge> 1
      then
        (let window_freq = fold (\<lambda>u fr. window_freq_add fr u) (take window_size unit_list) [];
             freq = window_items (text_of 1) window_freq
         in case window_loop text_of unit_list window_size
                   [1..<length unit_list - (window_size - 1)] window_freq freq 1 of
              Inl e \<Rightarrow> Inl e
            | Inr (freq', window_type) \<Rightarrow>
                Table_of_dict (map text_of [1..<window_type + 1]) unit_types freq'
                  ''__unit__'' ''string'' ''__context__'' ''continuous''
                  (const_dict unit_types ''continuous'') None (Some 0) None)
      else Table_of_dict [text_of 1] [] []
             ''__unit__'' ''string'' ''__context__'' ''continuous'' [] None (Some 0) None)"

text \<open>
  \<^verbatim>\<open>count_in_window(units, window_size)\<close> for a unit segmentation, an optional annotation
  key and the default sequence length 1. \<open>set_order\<close> is the order of \<^verbatim>\<open>list(set(...))\<close>.
\<close>

definition count_in_window ::
  "(nat \<Rightarrow> 'r) \<Rightarrow> (pyval list \<Rightarrow> pyval list) \<Rightarrow> entry list \<Rightarrow> segmentation \<Rightarrow> string option \<Rightarrow> nat
     \<Rightarrow> error + ('r, pyval, int) pivot" where
  "count_in_window text_of set_order data segmentation annotation_key window_size =
     (if length (buffer segmentation) \<ge> window_size \<and> window_size \<ge> 1
      then (case unit_list_of data annotation_key (buffer segmentation) of
              Inl e \<Rightarrow> Inl e
            | Inr unit_list \<Rightarrow>
                count_units_in_window text_of (set_order unit_list) unit_list window_size)
      else Table_of_dict [text_of 1] [] []
             ''__unit__'' ''string'' ''__context__'' ''continuous'' [] None (Some 0) None)"

text \<open>
  \<^verbatim>\<open>to_normalized('presence/absence')\<close>: \<^verbatim>\<open>dok_matrix(np.nan_to_num(self.values / self.values))\<close>.
  The module divides with \<^verbatim>\<open>from __future__ import division\<close>, so the quotient of the two
  integer matrices is a matrix of floating-point numbers: 1.0 for a nonzero cell, and
  \<^verbatim>\<open>nan\<close> for 0/0, which \<^verbatim>\<open>nan_to_num\<close> turns into 0.0. Both numbers, and the sums of their
  products below, are exact in floating point, so the reals model them without error.
  The result is an \<^verbatim>\<open>IntPivotCrosstab\<close> object over that floating-point matrix.
\<close>

definition to_normalized_presence_absence :: "('r, 'c, int) pivot \<Rightarrow> ('r, 'c, real) pivot" where
  "to_normalized_presence_absence self =
     \<lparr>row_ids = row_ids self, col_ids = col_ids self,
      cells =
        dok_of_array
          \<lparr>nrows = fst (shape (cells self)), ncols = snd (shape (cells self)),
           elem = (\<lambda>i j. let v = real_of_int (elem (todense (cells self)) i j)
                        in if v = 0 then 0 else v / v)\<rparr>,
      header_row_id = header_row_id self, header_row_type = header_row_type self,
      header_col_id = header_col_id self, header_col_type = header_col_type self,
      col_type = col_type self, class_col_id = None,
      missing = map_option real_of_int (missing self),
      cached_row_id = cached_row_id self,
      row_mapping = row_mapping self, col_mapping = col_mapping self\<rparr>"

text \<open>
  A numpy array with its dtype, as far as \<^verbatim>\<open>from_numpy\<close> looks at it: an integer type or a
  floating-point type.
\<close>

datatype typed_array = IntArray "int ndarray" | FloatArray "real ndarray"

text \<open>
  \<^verbatim>\<open>IntPivotCrosstab.from_numpy\<close>: the class is \<^verbatim>\<open>IntPivotCrosstab\<close>, so an array whose dtype
  is not an integer type is refused with a ValueError.
\<close>

definition IntPivotCrosstab_from_numpy ::
  "'r list \<Rightarrow> 'c list \<Rightarrow> typed_array \<Rightarrow> string \<Rightarrow> string \<Rightarrow> string \<Rightarrow> string
     \<Rightarrow> ('c \<times> string) list \<Rightarrow> error + ('r, 'c, int) pivot" where
  "IntPivotCrosstab_from_numpy rids cids np_array hrid hrtype hcid hctype ctype =
     (case np_array of
        FloatArray a \<Rightarrow> Inl ValueError
      | IntArray a \<Rightarrow> Inr (from_numpy rids cids a hrid hrtype hcid hctype ctype))"

text \<open>
  \<^verbatim>\<open>cooc_in_window\<close>: the product of the transposed presence matrix with itself, an array
  of floating-point numbers like its factors, handed to \<^verbatim>\<open>IntPivotCrosstab.from_numpy\<close>.
  Only an IndexError is caught there, so the ValueError of the dtype test goes through.
\<close>

definition cooc_in_window ::
  "(nat \<Rightarrow> 'r) \<Rightarrow> (pyval list \<Rightarrow> pyval list) \<Rightarrow> entry list \<Rightarrow> segmentation \<Rightarrow> string option \<Rightarrow> nat
     \<Rightarrow> error + (pyval, pyval, int) pivot" where
  "cooc_in_window text_of set_order data segmentation annotation_key window_size =
     (case count_in_window text_of set_order data segmentation annotation_key window_size of
        Inl e \<Rightarrow> Inl e
      | Inr contingency \<Rightarrow>
          (let normalized = to_normalized_presence_absence contingency;
               np_contingency = to_numpy normalized;
               cooc = np_dot (np_transpose np_contingency) np_contingency;
               h = header_row_id contingency;
               new_header_row_id = take (length h - 2) h @ ''2'' @ drop (length h - 2) h
           in IntPivotCrosstab_from_numpy (col_ids contingency) (col_ids contingency)
                (FloatArray cooc)
                (header_row_id contingency) (header_row_type contingency)
                new_header_row_id (header_row_type contingency)
                (col_type contingency)))"

text \<open>\<^verbatim>\<open>text(n)\<close>, the decimal digits of a number.\<close>

fun text_of_nat :: "nat \<Rightarrow> string" where
  "text_of_nat n =
     (if n < 10 then [''0123456789'' ! n]
      else text_of_nat (n div 10) @ [''0123456789'' ! (n mod 10)])"

declare text_of_nat.simps [simp del]

text \<open>The seven letters of \<^verbatim>\<open>"un texte"\<close>, as a segmentation.\<close>

definition letters :: segmentation where
  "letters =
     Segmentation_of_list
       [\<lparr>str_index = 0, start = Some 0, end' = Some 1, annotations = [(''type'', PyStr ''V'')]\<rparr>,
        \<lparr>str_index = 0, start = Some 1, end' = Some 2, annotations = [(''type'', PyStr ''C'')]\<rparr>,
        \<lparr>str_index = 0, start = Some 3, end' = Some 4, annotations = [(''type'', PyStr ''C'')]\<rparr>,
        \<lparr>str_index = 0, start = Some 4, end' = Some 5, annotations = [(''type'', PyStr ''V'')]\<rparr>,
        \<lparr>str_index = 0, start = Some 5, end' = Some 6, annotations = [(''type'', PyStr ''C'')]\<rparr>,
        \<lparr>str_index = 0, start = Some 6, end' = Some 7, annotations = [(''type'', PyStr ''C'')]\<rparr>,
        \<lparr>str_index = 0, start = Some 7, end' = Some 8, annotations = [(''type'', PyStr ''V'')]\<rparr>]
       ''letters''"

section \<open>Floating-point rounding\<close>

lemma rne_of_int [simp]: "rne (of_int k) = k"
  by (simp add: rne_def)

lemma rne_cases:
  "rne x = \<lfloor>x\<rfloor> \<and> x - of_int \<lfloor>x\<rfloor> \<le> 1 / 2 \<or> rne x = \<lfloor>x\<rfloor> + 1 \<and> 1 / 2 \<le> x - of_int \<lfloor>x\<rfloor>"
  by (auto simp: rne_def Let_def)

lemma rne_near: "\<bar>of_int (rne x) - x\<bar> \<le> 1 / 2"
proof -
  have "of_int \<lfloor>x\<rfloor> \<le> x" "x < of_int \<lfloor>x\<rfloor> + 1" by linarith+
  with rne_cases [of x] show ?thesis by (auto simp: abs_le_iff)
qed

lemma rne_ge: "of_int k \<le> x \<Longrightarrow> k \<le> rne x"
proof -
  assume "of_int k \<le> x"
  then have "k \<le> \<lfloor>x\<rfloor>" by (simp add: le_floor_iff)
  with rne_cases [of x] show ?thesis by auto
qed

lemma rne_le: "x \<le> of_int k \<Longrightarrow> rne x \<le> k"
proof (cases "x = of_int k")
  case True
  then show ?thesis by simp
next
  case False
  assume "x \<le> of_int k"
  with False have "x < of_int k" by simp
  then have "\<lfloor>x\<rfloor> < k" by (simp add: floor_less_iff)
  with rne_cases [of x] show ?thesis by auto
qed

lemma floor_log2:
  assumes "0 < x"
  shows "2 powi floor_log2 x \<le> x" and "x < 2 powi (floor_log2 x + 1)"
proof -
  have "2 powi floor_log2 x \<le> x \<and> x < 2 powi (floor_log2 x + 1)"
  proof (cases "1 \<le> x")
    case True
    let ?n = "\<lfloor>x\<rfloor>"
    let ?b = "bitlen ?n"
    from True have n: "0 < ?n" by simp
    from bitlen_bounds [OF n] have b: "2 ^ nat (?b - 1) \<le> ?n" "?n < 2 ^ nat ?b" by simp_all
    have b1: "1 \<le> ?b" using n by (simp add: bitlen_def floorlog_def)
    have "(2::rat) powi (?b - 1) = of_int (2 ^ nat (?b - 1))"
      using b1 by (simp add: power_int_def)
    also have "\<dots> \<le> of_int ?n" using b(1) by (simp only: of_int_le_iff)
    also have "\<dots> \<le> x" by simp
    finally have lo: "(2::rat) powi (?b - 1) \<le> x" .
    have "?n + 1 \<le> 2 ^ nat ?b" using b(2) by simp
    then have "(of_int (?n + 1) :: rat) \<le> of_int (2 ^ nat ?b)" by (simp only: of_int_le_iff)
    moreover have "x < of_int (?n + 1)" by (simp only: of_int_add of_int_1) linarith
    ultimately have "x < of_int (2 ^ nat ?b)" by linarith
    also have "(of_int (2 ^ nat ?b) :: rat) = 2 powi ?b"
      using b1 by (simp add: power_int_def)
    finally have hi: "x < 2 powi ?b" .
    from lo hi True show ?thesis by (simp add: floor_log2_def)
  next
    case False
    let ?n = "\<lceil>1 / x\<rceil>"
    let ?k = "bitlen (?n - 1)"
    from False assms have inv: "1 < 1 / x" by simp
    then have n: "0 < ?n - 1" by (simp add: less_ceiling_iff)
    from bitlen_bounds [OF n] have b: "2 ^ nat (?k - 1) \<le> ?n - 1" "?n - 1 < 2 ^ nat ?k" by simp_all
    have k1: "1 \<le> ?k" using n by (simp add: bitlen_def floorlog_def)
    have "?n \<le> 2 ^ nat ?k" using b(2) by simp
    then have "(of_int ?n :: rat) \<le> of_int (2 ^ nat ?k)" by (simp only: of_int_le_iff)
    moreover have "1 / x \<le> of_int ?n" by simp
    ultimately have "1 / x \<le> of_int (2 ^ nat ?k)" by linarith
    then have "1 / x \<le> 2 ^ nat ?k" by simp
    then have "1 \<le> 2 ^ nat ?k * x" using assms by (simp add: field_simps)
    then have "1 / 2 ^ nat ?k \<le> x" by (simp add: field_simps)
    moreover have "(2::rat) powi (- ?k) = 1 / 2 ^ nat ?k"
      using k1 by (simp add: power_int_def field_simps)
    ultimately have lo: "(2::rat) powi (- ?k) \<le> x" by simp
    have "2 ^ nat (?k - 1) < ?n" using b(1) by simp
    then have "(of_int (2 ^ nat (?k - 1)) :: rat) < 1 / x" by (simp only: less_ceiling_iff)
    then have "2 ^ nat (?k - 1) < 1 / x" by simp
    then have "2 ^ nat (?k - 1) * x < 1" using assms by (simp add: field_simps)
    then have "x < 1 / 2 ^ nat (?k - 1)" by (simp add: field_simps)
    moreover have "(2::rat) powi (- ?k + 1) = 1 / 2 ^ nat (?k - 1)"
    proof (cases "?k = 1")
      case True
      then show ?thesis by simp
    next
      case ne: False
      with k1 have "- ?k + 1 < 0" by simp
      then show ?thesis by (simp add: power_int_def field_simps nat_diff_distrib)
    qed
    ultimately have hi: "x < 2 powi (- ?k + 1)" by simp
    from lo hi False show ?thesis by (simp add: floor_log2_def)
  qed
  then show "2 powi floor_log2 x \<le> x" and "x < 2 powi (floor_log2 x + 1)" by simp_all
qed

lemma pow2_less_exp:
  fixes x :: rat
  assumes "2 powi m \<le> x" "x < 2 powi n"
  shows "m < n"
proof (rule ccontr)
  assume "\<not> m < n"
  then have "(2::rat) powi n \<le> 2 powi m" by (intro power_int_increasing) simp_all
  with assms show False by simp
qed

lemma pow2_split: "(2::rat) powi (a + b) = 2 powi a * 2 powi b"
  by (rule power_int_add) simp

lemma pow2_diff: "(2::rat) powi (a - b) = 2 powi a / 2 powi b"
  by (rule power_int_diff) simp

lemma pow2_nat: "0 \<le> a \<Longrightarrow> (2::rat) powi a = of_int (2 ^ nat a)"
  by (simp add: power_int_def)

text \<open>The error of rounding is at most half a unit in the last place.\<close>

lemma round53_error:
  assumes "0 < x"
  shows "\<bar>round53 x - x\<bar> \<le> 2 powi (max (floor_log2 x) (- 1022) - 53)"
proof -
  define e where "e = max (floor_log2 x) (- 1022)"
  define u :: rat where "u = 2 powi (e - 52)"
  have u: "0 < u" by (simp add: u_def)
  have r: "round53 x = of_int (rne (x / u)) * u"
    by (simp add: round53_def Let_def e_def u_def)
  have "\<bar>of_int (rne (x / u)) - x / u\<bar> * u \<le> 1 / 2 * u"
    using rne_near [of "x / u"] u by (intro mult_right_mono) simp_all
  moreover have "\<bar>of_int (rne (x / u)) - x / u\<bar> * u = \<bar>of_int (rne (x / u)) * u - x\<bar>"
  proof -
    have "\<bar>of_int (rne (x / u)) - x / u\<bar> * u = \<bar>(of_int (rne (x / u)) - x / u) * u\<bar>"
      using u by (simp add: abs_mult)
    also have "(of_int (rne (x / u)) - x / u) * u = of_int (rne (x / u)) * u - x"
      using u by (simp add: field_simps)
    finally show ?thesis .
  qed
  moreover have "1 / 2 * u = 2 powi (e - 53)"
  proof -
    have "(2::rat) powi (e - 52) = 2 powi ((e - 53) + 1)" by simp
    also have "\<dots> = 2 powi (e - 53) * 2" by (subst pow2_split) simp
    finally show ?thesis by (simp add: u_def)
  qed
  ultimately show ?thesis by (simp add: r e_def)
qed

lemma floor_log2_ge:
  assumes "2 powi lo \<le> x"
  shows "lo \<le> floor_log2 x"
proof -
  have "0 < (2::rat) powi lo" by simp
  with assms have x: "0 < x" by linarith
  from pow2_less_exp [OF assms floor_log2(2) [OF x]] show ?thesis by simp
qed

lemma floor_log2_le:
  assumes "0 < x" "x \<le> 2 powi hi"
  shows "floor_log2 x \<le> hi"
proof (rule ccontr)
  assume "\<not> floor_log2 x \<le> hi"
  then have "hi + 1 \<le> floor_log2 x" by simp
  then have "(2::rat) powi (hi + 1) \<le> 2 powi floor_log2 x" by (intro power_int_increasing) simp_all
  also have "\<dots> \<le> x" by (rule floor_log2(1) [OF assms(1)])
  finally have "(2::rat) powi (hi + 1) \<le> 2 powi hi" using assms(2) by simp
  moreover have "(2::rat) powi hi < 2 powi (hi + 1)" by (intro power_int_strict_increasing) simp_all
  ultimately show False by simp
qed

lemma round53_rel_error:
  assumes "2 powi (- 1022) \<le> x"
  shows "\<bar>round53 x - x\<bar> \<le> x * 2 powi (- 53)"
proof -
  have "0 < (2::rat) powi (- 1022)" by simp
  with assms have x: "0 < x" by linarith
  have e: "max (floor_log2 x) (- 1022) = floor_log2 x"
    using floor_log2_ge [OF assms] by simp
  have "(2::rat) powi (floor_log2 x - 53) = 2 powi floor_log2 x * 2 powi (- 53)"
    using pow2_split [of "floor_log2 x" "- 53"] by simp
  also have "\<dots> \<le> x * 2 powi (- 53)"
    using floor_log2(1) [OF x] by (intro mult_right_mono) simp_all
  finally show ?thesis using round53_error [OF x] e by simp
qed

lemma round53_le_pow2:
  assumes "0 < x" "x \<le> 2 powi hi" "- 1022 \<le> hi"
  shows "round53 x \<le> 2 powi hi"
proof -
  define e where "e = max (floor_log2 x) (- 1022)"
  define u :: rat where "u = 2 powi (e - 52)"
  have u: "0 < u" by (simp add: u_def)
  have r: "round53 x = of_int (rne (x / u)) * u"
    by (simp add: round53_def Let_def e_def u_def)
  have "e \<le> hi" using floor_log2_le [OF assms(1,2)] assms(3) by (simp add: e_def)
  then have k: "0 \<le> hi - e + 52" by simp
  have split: "(2::rat) powi hi = 2 powi (hi - e + 52) * u"
    using pow2_split [of "hi - e + 52" "e - 52"] by (simp add: u_def)
  then have "x / u \<le> 2 powi (hi - e + 52)" using assms(2) u by (simp add: field_simps)
  then have "x / u \<le> of_int (2 ^ nat (hi - e + 52))" by (simp only: pow2_nat [OF k])
  then have "rne (x / u) \<le> 2 ^ nat (hi - e + 52)" by (rule rne_le)
  then have "(of_int (rne (x / u)) :: rat) \<le> of_int (2 ^ nat (hi - e + 52))"
    by (simp only: of_int_le_iff)
  then have "of_int (rne (x / u)) * u \<le> 2 powi (hi - e + 52) * u"
    using u by (simp only: pow2_nat [OF k] mult_le_cancel_right_pos)
  then show ?thesis by (simp add: r split)
qed

lemma round53_ge_pow2:
  assumes "2 powi lo \<le> x" "- 1022 \<le> lo"
  shows "2 powi lo \<le> round53 x"
proof -
  define e where "e = floor_log2 x"
  define u :: rat where "u = 2 powi (e - 52)"
  have "0 < (2::rat) powi lo" by simp
  with assms have x: "0 < x" by linarith
  have lo: "lo \<le> e" unfolding e_def by (rule floor_log2_ge [OF assms(1)])
  with assms(2) have e: "max (floor_log2 x) (- 1022) = e" by (simp add: e_def)
  have u: "0 < u" by (simp add: u_def)
  have r: "round53 x = of_int (rne (x / u)) * u"
    by (simp add: round53_def Let_def e u_def)
  have split: "(2::rat) powi e = 2 powi 52 * u"
    using pow2_split [of 52 "e - 52"] by (simp add: u_def)
  have "2 powi e \<le> x" unfolding e_def by (rule floor_log2(1) [OF x])
  then have "2 powi 52 \<le> x / u" using u by (simp add: split field_simps)
  then have "of_int (2 ^ 52) \<le> x / u" by simp
  then have "2 ^ 52 \<le> rne (x / u)" by (rule rne_ge)
  then have "(of_int (2 ^ 52) :: rat) \<le> of_int (rne (x / u))" by (simp only: of_int_le_iff)
  then have "2 powi 52 * u \<le> of_int (rne (x / u)) * u"
    using u by (simp only: mult_le_cancel_right_pos) simp
  moreover have "(2::rat) powi lo \<le> 2 powi e" using lo by (intro power_int_increasing) simp_all
  ultimately show ?thesis by (simp add: r split)
qed

text \<open>A number with at most 53 significant bits, not below the least subnormal unit, is
  its own rounding.\<close>

lemma round53_exact:
  assumes "0 < m" "m \<le> 2 ^ 53" "- 1074 \<le> j"
  shows "round53 (of_int m * 2 powi j) = of_int m * 2 powi j"
proof -
  define x :: rat where "x = of_int m * 2 powi j"
  define e where "e = max (floor_log2 x) (- 1022)"
  define u :: rat where "u = 2 powi (e - 52)"
  have x: "0 < x" using assms(1) by (simp add: x_def)
  have u: "0 < u" by (simp add: u_def)
  have r: "round53 x = of_int (rne (x / u)) * u"
    by (simp add: round53_def Let_def e_def u_def)
  have "(of_int m :: rat) \<le> of_int (2 ^ 53)" using assms(2) by (simp only: of_int_le_iff)
  then have "(of_int m :: rat) \<le> 2 powi 53" by simp
  then have "x \<le> 2 powi 53 * 2 powi j" unfolding x_def by (intro mult_right_mono) simp_all
  then have le: "x \<le> 2 powi (53 + j)" by (simp add: pow2_split)
  show ?thesis
  proof (cases "x = 2 powi (53 + j)")
    case True
    have "(2::rat) powi (53 + j) \<le> x" using True by simp
    then have "53 + j \<le> floor_log2 x" by (rule floor_log2_ge)
    moreover have "floor_log2 x \<le> 53 + j" using floor_log2_le [OF x le] .
    ultimately have e: "e = 53 + j" using assms(3) by (simp add: e_def)
    have "x / u = 2 powi 52"
      using pow2_diff [of "53 + j" "e - 52"] by (simp add: True u_def e)
    then have "x / u = of_int (2 ^ 52)" by simp
    then have "of_int (rne (x / u)) = x / u" by (simp only: rne_of_int)
    then show ?thesis using u by (simp add: r x_def [symmetric])
  next
    case False
    with le have "x < 2 powi (53 + j)" by simp
    from pow2_less_exp [OF floor_log2(1) [OF x] this] have "floor_log2 x \<le> 52 + j" by simp
    with assms(3) have k: "0 \<le> j - (e - 52)" by (simp add: e_def)
    have "x / u = of_int m * 2 powi (j - (e - 52))"
      by (simp add: x_def u_def pow2_diff)
    also have "\<dots> = of_int (m * 2 ^ nat (j - (e - 52)))" by (simp add: pow2_nat [OF k])
    finally have "of_int (rne (x / u)) = x / u" by (simp only: rne_of_int)
    then show ?thesis using u by (simp add: r x_def [symmetric])
  qed
qed

lemma round53_nonneg: "0 \<le> x \<Longrightarrow> 0 \<le> round53 x"
proof -
  assume x: "0 \<le> x"
  define u :: rat where "u = 2 powi (max (floor_log2 x) (- 1022) - 52)"
  have u: "0 < u" by (simp add: u_def)
  then have "of_int 0 \<le> x / u" using x by simp
  then have "0 \<le> rne (x / u)" by (rule rne_ge)
  then show ?thesis using u by (simp add: round53_def Let_def u_def [symmetric])
qed

lemma fl_finite:
  assumes "\<bar>x\<bar> \<le> 2 powi hi" "- 1022 \<le> hi" "hi \<le> 1023"
  shows "fl x = Finite (if x < 0 then - round53 \<bar>x\<bar> else round53 \<bar>x\<bar>)"
proof (cases "x = 0")
  case True
  have "rne 0 = rne (of_int 0)" by simp
  then have "rne 0 = 0" by (simp only: rne_of_int)
  then have "round53 0 = 0" by (simp add: round53_def Let_def)
  with True show ?thesis by (simp add: fl_def)
next
  case False
  then have a: "0 < \<bar>x\<bar>" by simp
  let ?r = "round53 \<bar>x\<bar>"
  have le: "?r \<le> 2 powi hi" by (rule round53_le_pow2 [OF a assms(1,2)])
  have "floor_log2 ?r < 1024"
  proof (cases "?r = 0")
    case True
    have "0 \<le> bitlen (- 1)" by (rule bitlen_nonneg)
    with True show ?thesis by (simp add: floor_log2_def)
  next
    case False
    with round53_nonneg [of "\<bar>x\<bar>"] have "0 < ?r" by simp
    from floor_log2_le [OF this le] assms(3) show ?thesis by simp
  qed
  with False show ?thesis by (simp add: fl_def Let_def)
qed

lemma fl_of_int:
  assumes "\<bar>n\<bar> \<le> 2 ^ 53"
  shows "fl (of_int n) = Finite (of_int n)"
proof (cases "n = 0")
  case True
  then show ?thesis by (simp add: fl_def)
next
  case False
  then have pos: "0 < \<bar>n\<bar>" by simp
  have r: "round53 (of_int \<bar>n\<bar>) = of_int \<bar>n\<bar>"
    using round53_exact [OF pos assms, of 0] by simp
  have "(of_int \<bar>n\<bar> :: rat) \<le> of_int (2 ^ 53)" using assms by (simp only: of_int_le_iff)
  then have "\<bar>of_int n :: rat\<bar> \<le> 2 powi 53" by simp
  from fl_finite [OF this] r show ?thesis by (auto simp: abs_if)
qed

section \<open>Equality of segments\<close>

text \<open>
  C2. Two segments should be equal when they share \<^verbatim>\<open>str_index\<close> and the materialized
  range, so every segment should equal itself. \<^verbatim>\<open>__eq__\<close> compares the raw \<^verbatim>\<open>start\<close> of
  the left operand with the materialized \<^verbatim>\<open>start\<close> of the right one: a segment whose
  \<^verbatim>\<open>start\<close> is absent is not equal to itself.
\<close>

theorem Segment_eq_not_reflexive:
  "\<not> Segment_eq \<lparr>str_index = 0, start = None, end' = None, annotations = []\<rparr>
                 \<lparr>str_index = 0, start = None, end' = None, annotations = []\<rparr>"
  by (simp add: Segment_eq_def py_or_def)

section \<open>Sorting a segmentation\<close>

text \<open>
  C4. \<^verbatim>\<open>_sort\<close> is documented to sort by (str_index, start, end). It only orders the runs
  of equal \<^verbatim>\<open>str_index\<close>: a segmentation over one string whose second segment starts
  before its first is returned as it is.
\<close>

theorem Segmentation_sort_single_str_index_unchanged:
  "Segmentation_sort
     (Segmentation_of_list
        [\<lparr>str_index = 0, start = Some 5, end' = Some 6, annotations = []\<rparr>,
         \<lparr>str_index = 0, start = Some 1, end' = Some 2, annotations = []\<rparr>] ''s'')
   = Inr (Segmentation_of_list
        [\<lparr>str_index = 0, start = Some 5, end' = Some 6, annotations = []\<rparr>,
         \<lparr>str_index = 0, start = Some 1, end' = Some 2, annotations = []\<rparr>] ''s'')"
  by (simp add: Segmentation_sort_def Segmentation_of_list_def get_str_index_ptr_def)

section \<open>Expected variety of a subsample\<close>





section \<open>Systematic sampling\<close>

lemma label_Segmentation_append [simp]: "label (Segmentation_append S seg) = label S"
  by (simp add: Segmentation_append_def)

lemma buffer_Segmentation_append [simp]: "buffer (Segmentation_append S seg) = buffer S @ [seg]"
  by (simp add: Segmentation_append_def)

lemma buffer_Segmentation_of_list [simp]: "buffer (Segmentation_of_list segs l) = segs"
  by (simp add: Segmentation_of_list_def)

lemma py_round_near:
  assumes "x > 0"
  shows "\<exists>r::int. py_round v x = of_int r \<and> 0 \<le> r \<and> \<bar>x - of_int r\<bar> \<le> 1 / 2"
proof (cases v)
  case Py2
  let ?r = "\<lfloor>x + 1 / 2\<rfloor>"
  have "of_int ?r \<le> x + 1 / 2" "x + 1 / 2 < of_int ?r + 1" by linarith+
  then have near: "\<bar>x - of_int ?r\<bar> \<le> 1 / 2" by linarith
  have "0 \<le> ?r" using assms by simp
  moreover have "py_round v x = of_int ?r" using Py2 assms by (simp add: py_round_def)
  ultimately show ?thesis using near by blast
next
  case Py3
  have "of_int 0 \<le> x" using assms by simp
  then have "0 \<le> rne x" by (rule rne_ge)
  moreover have "\<bar>x - of_int (rne x)\<bar> \<le> 1 / 2" using rne_near [of x] by (simp add: abs_minus_commute)
  moreover have "py_round v x = of_int (rne x)" using Py3 by (simp add: py_round_def)
  ultimately show ?thesis by blast
qed

text \<open>Up to \<open>2\<^sup>5\<^sup>2\<close>, an integer less one half is a binary64 number.\<close>

lemma fsub_half:
  assumes "0 \<le> r" "r \<le> 2 ^ 52"
  shows "fsub (Finite (of_int r)) (Finite (1 / 2)) = Finite (of_int r - 1 / 2)"
proof (cases "r = 0")
  case True
  have "round53 (of_int 1 * 2 powi (- 1)) = of_int 1 * 2 powi (- 1)"
    by (rule round53_exact) simp_all
  then have r: "round53 (1 / 2) = 1 / 2" by (simp add: power_int_minus_divide)
  have "\<bar>- (1 / 2) :: rat\<bar> \<le> 2 powi 0" by simp
  from fl_finite [OF this] r have "fl (- (1 / 2)) = Finite (- (1 / 2))" by simp
  with True show ?thesis by (simp add: fsub_def)
next
  case False
  with assms have r1: "1 \<le> r" by simp
  let ?y = "of_int r - 1 / 2 :: rat"
  have y: "?y = of_int (2 * r - 1) * 2 powi (- 1)"
    by (simp add: power_int_minus_divide field_simps)
  have "round53 (of_int (2 * r - 1) * 2 powi (- 1)) = of_int (2 * r - 1) * 2 powi (- 1)"
    using r1 assms(2) by (intro round53_exact) simp_all
  then have rr: "round53 ?y = ?y" by (simp only: y)
  have "(of_int r :: rat) \<le> of_int (2 ^ 52)" using assms(2) by (simp only: of_int_le_iff)
  moreover have "(1 :: rat) \<le> of_int r" using r1 by (metis of_int_1_le_iff)
  ultimately have "0 < ?y" "\<bar>?y\<bar> \<le> 2 powi 52" by simp_all
  from fl_finite [OF this(2)] rr this(1) have "fl ?y = Finite ?y" by simp
  then show ?thesis by (simp add: fsub_def)
qed

lemma iround_pos:
  assumes "0 < x" "x \<le> 2 ^ 52"
  shows "\<exists>s. iround v (Finite x) = Inr s \<and> 1 \<le> s
           \<and> (\<bar>x - of_int s\<bar> \<le> 1 / 2 \<or> s = 1 \<and> x < 1 / 2)"
proof -
  from py_round_near [OF assms(1)] obtain r :: int
    where r: "py_round v x = of_int r" "0 \<le> r" "\<bar>x - of_int r\<bar> \<le> 1 / 2" by blast
  have "of_int r \<le> x + 1 / 2" using r(3) by linarith
  also have "\<dots> < of_int (2 ^ 52 + 1)" using assms(2) by simp
  finally have "r < 2 ^ 52 + 1" by (simp only: of_int_less_iff)
  then have r52: "r \<le> 2 ^ 52" by simp
  note sub = fsub_half [OF r(2) r52]
  show ?thesis
  proof (cases "r = 0")
    case True
    have "\<lceil>- (1 / 2 :: rat)\<rceil> = 0" by linarith
    then have "iround v (Finite x) = Inr 1"
      using r True assms sub by (simp add: iround_def py_int_def)
    moreover have "x \<le> 1 / 2" using r True by simp
    ultimately show ?thesis using assms by (auto simp: abs_le_iff)
  next
    case False
    then have "1 \<le> r" using r by simp
    then have "(1 :: rat) \<le> of_int r" by (metis of_int_1_le_iff)
    then have "(of_int r :: rat) - 1 / 2 \<ge> 0" by simp
    moreover have "\<lfloor>(of_int r :: rat) - 1 / 2\<rfloor> = r - 1" by linarith
    ultimately have "iround v (Finite x) = Inr r"
      using r assms sub by (simp add: iround_def py_int_def)
    with r \<open>1 \<le> r\<close> show ?thesis by simp
  qed
qed


text \<open>
  The step of the systematic sample: both divisions round, so that the double handed
  to \<^verbatim>\<open>iround\<close> is \<open>L / k\<close> up to a relative error of \<open>2\<^sup>-\<^sup>5\<^sup>1\<close>.
\<close>

lemma reciprocal_twice_rounded:
  fixes a q x u :: rat
  assumes a: "0 < a" and u: "0 \<le> u" "u \<le> 1 / 2"
    and q: "\<bar>q - a\<bar> \<le> a * u" and q0: "0 < q"
    and x: "\<bar>x - 1 / q\<bar> \<le> (1 / q) * u"
  shows "\<bar>x - 1 / a\<bar> \<le> (1 / a) * (4 * u)"
proof -
  have qlo: "a * (1 - u) \<le> q" and qhi: "q \<le> a * (1 + u)"
    using q by (simp_all add: abs_le_iff algebra_simps)
  have xlo: "(1 - u) / q \<le> x" and xhi: "x \<le> (1 + u) / q"
    using x by (simp_all add: abs_le_iff algebra_simps diff_divide_distrib add_divide_distrib)
  have pos: "0 < 1 - u" "0 < 1 + u" using u by linarith+
  have "x * a \<le> (1 + u) / q * a" using xhi a by (intro mult_right_mono) simp_all
  also have "\<dots> \<le> (1 + u) / (a * (1 - u)) * a"
    using qlo pos a by (intro mult_right_mono divide_left_mono) (simp_all add: q0)
  also have "\<dots> = (1 + u) / (1 - u)" using a by simp
  also have "\<dots> \<le> 1 + 4 * u"
  proof -
    have "1 + u \<le> (1 + 4 * u) * (1 - u)"
    proof -
      have "0 \<le> u * (2 - 4 * u)" using u by (intro mult_nonneg_nonneg) simp_all
      then show ?thesis by (simp add: algebra_simps)
    qed
    then show ?thesis using pos by (simp add: pos_divide_le_eq)
  qed
  finally have hi: "x * a \<le> 1 + 4 * u" .
  have "1 - 4 * u \<le> (1 - u) / (1 + u)"
  proof -
    have "(1 - 4 * u) * (1 + u) \<le> 1 - u"
    proof -
      have "0 \<le> u * (2 + 4 * u)" using u by (intro mult_nonneg_nonneg) simp_all
      then show ?thesis by (simp add: algebra_simps)
    qed
    then show ?thesis using pos by (simp add: pos_le_divide_eq)
  qed
  also have "\<dots> = (1 - u) / (a * (1 + u)) * a" using a by simp
  also have "\<dots> \<le> (1 - u) / q * a"
    using qhi pos a q0 by (intro mult_right_mono divide_left_mono) simp_all
  also have "\<dots> \<le> x * a" using xlo a by (intro mult_right_mono) simp_all
  finally have lo: "1 - 4 * u \<le> x * a" .
  have "\<bar>x * a - 1\<bar> \<le> 4 * u" using lo hi by (simp add: abs_le_iff)
  then have "\<bar>x * a - 1\<bar> / a \<le> 4 * u / a" using a by (simp add: divide_right_mono)
  moreover have "\<bar>x * a - 1\<bar> / a = \<bar>x - 1 / a\<bar>"
  proof -
    have "\<bar>x * a - 1\<bar> / a = \<bar>(x * a - 1) / a\<bar>" using a by simp
    also have "(x * a - 1) / a = x - 1 / a" using a by (simp add: diff_divide_distrib)
    finally show ?thesis .
  qed
  ultimately show ?thesis by simp
qed

lemma systematic_step_double:
  assumes L: "0 < L" "L < 2 ^ 52" and k: "0 < k" "k < 2 ^ 64"
  defines "x \<equiv> round53 (1 / round53 (of_nat k / of_nat L))"
  shows "systematic_step v L k = iround v (Finite x)"
    and "0 < x" and "x \<le> 2 ^ 52"
    and "\<bar>x - of_nat L / of_nat k\<bar> \<le> (of_nat L / of_nat k) * 2 powi (- 51)"
proof -
  define a :: rat where "a = of_nat k / of_nat L"
  define q where "q = round53 a"
  have x_def': "x = round53 (1 / q)" by (simp add: x_def q_def a_def)
  have a0: "0 < a" using L k by (simp add: a_def)
  have Lr: "(of_nat L :: rat) \<le> 2 ^ 52" "(1 :: rat) \<le> of_nat L"
    using L by (simp_all add: of_nat_less_numeral_power_cancel_iff [THEN iffD2] less_imp_le Suc_leI)
  have kr: "(of_nat k :: rat) \<le> 2 ^ 64" "(1 :: rat) \<le> of_nat k"
    using k by (simp_all add: of_nat_less_numeral_power_cancel_iff [THEN iffD2] less_imp_le Suc_leI)
  have alo: "2 powi (- 52) \<le> a"
  proof -
    have "(1 :: rat) / 2 ^ 52 \<le> 1 / of_nat L" using Lr L by (intro divide_left_mono) simp_all
    also have "\<dots> \<le> of_nat k / of_nat L" using kr L by (intro divide_right_mono) simp_all
    finally show ?thesis by (simp add: a_def power_int_minus_divide)
  qed
  have ahi: "a \<le> 2 powi 64"
  proof -
    have "of_nat k / of_nat L \<le> (of_nat k :: rat) / 1" using Lr L by (intro divide_left_mono) simp_all
    also have "\<dots> \<le> 2 ^ 64" using kr by simp
    finally show ?thesis by (simp add: a_def)
  qed
  have qlo: "2 powi (- 52) \<le> q" unfolding q_def by (rule round53_ge_pow2 [OF alo]) simp
  have qhi: "q \<le> 2 powi 64" unfolding q_def by (rule round53_le_pow2 [OF a0 ahi]) simp
  have q0: "0 < q" using qlo by (rule less_le_trans [rotated]) simp
  have "2 powi (- 1022) \<le> (2 :: rat) powi (- 52)" by (rule power_int_increasing) simp_all
  with alo have "2 powi (- 1022) \<le> a" by linarith
  from round53_rel_error [OF this] have qerr: "\<bar>q - a\<bar> \<le> a * 2 powi (- 53)" by (simp add: q_def)
  have "\<bar>a\<bar> \<le> 2 powi 64" using a0 ahi by simp
  from fl_finite [OF this] a0 have fla: "fl a = Finite q" by (simp add: q_def)
  have ilo: "2 powi (- 64) \<le> 1 / q"
  proof -
    have "1 / 2 powi 64 \<le> 1 / q" using qhi q0 by (intro divide_left_mono) simp_all
    then show ?thesis by (simp add: power_int_minus_divide)
  qed
  have ihi: "1 / q \<le> 2 powi 52"
  proof -
    have "1 / q \<le> 1 / 2 powi (- 52)" using qlo q0 by (intro divide_left_mono) simp_all
    then show ?thesis by (simp add: power_int_minus_divide)
  qed
  have i0: "0 < 1 / q" using q0 by simp
  have xlo: "2 powi (- 64) \<le> x" unfolding x_def' by (rule round53_ge_pow2 [OF ilo]) simp
  have xhi: "x \<le> 2 powi 52" unfolding x_def' by (rule round53_le_pow2 [OF i0 ihi]) simp
  show x0: "0 < x" using xlo by (rule less_le_trans [rotated]) simp
  show "x \<le> 2 ^ 52" using xhi by simp
  have "2 powi (- 1022) \<le> (2 :: rat) powi (- 64)" by (rule power_int_increasing) simp_all
  with ilo have "2 powi (- 1022) \<le> 1 / q" by linarith
  from round53_rel_error [OF this] have xerr: "\<bar>x - 1 / q\<bar> \<le> (1 / q) * 2 powi (- 53)"
    by (simp add: x_def')
  have "\<bar>1 / q\<bar> \<le> 2 powi 52" using i0 ihi by simp
  from fl_finite [OF this] i0 have fli: "fl (1 / q) = Finite x" by (simp add: x_def')
  have "4 * 2 powi (- 53) = (2 :: rat) powi (- 51)" by (simp add: power_int_minus_divide)
  moreover have "(2 :: rat) powi (- 53) \<le> 1 / 2" by (simp add: power_int_minus_divide)
  moreover have "1 / a = of_nat L / of_nat k" by (simp add: a_def)
  ultimately show "\<bar>x - of_nat L / of_nat k\<bar> \<le> (of_nat L / of_nat k) * 2 powi (- 51)"
    using reciprocal_twice_rounded [OF a0 _ _ qerr q0 xerr] by simp
  have "py_int_truediv (int k) (int L) = Inr (Finite q)"
    using L fla by (simp add: py_int_truediv_def a_def)
  moreover have "py_float_truediv (Finite 1) (Finite q) = Inr (Finite x)"
    using q0 fli by (simp add: py_float_truediv_def)
  ultimately show "systematic_step v L k = iround v (Finite x)"
    by (simp add: systematic_step_def)
qed

lemma sample_loop_result:
  "sample_loop idxs ca i segs (new, neg) = (new', neg') \<Longrightarrow>
     label new' = label new \<and> label neg' = label neg \<and>
     buffer new' = buffer new @ [deepcopy seg ca. (j, seg) \<leftarrow> enumerate i segs, j \<in> set idxs] \<and>
     buffer neg' = buffer neg @ [deepcopy seg ca. (j, seg) \<leftarrow> enumerate i segs, j \<notin> set idxs]"
proof (induction segs arbitrary: i new neg)
  case Nil
  then show ?case by simp
next
  case (Cons seg segs)
  show ?case
  proof (cases "i \<in> set idxs")
    case True
    with Cons.prems have
      "sample_loop idxs ca (Suc i) segs (Segmentation_append new (deepcopy seg ca), neg) = (new', neg')"
      by simp
    from Cons.IH [OF this] True show ?thesis by simp
  next
    case False
    with Cons.prems have
      "sample_loop idxs ca (Suc i) segs (new, Segmentation_append neg (deepcopy seg ca)) = (new', neg')"
      by simp
    from Cons.IH [OF this] False show ?thesis by simp
  qed
qed

lemma slice_step_upt:
  assumes "0 < step"
  shows "slice_step [0..<n] step = Inr (filter (\<lambda>i. int i mod step = 0) [0..<n])"
proof -
  have "[[0..<n] ! i. i \<leftarrow> [0..<m], int i mod step = 0] = filter (\<lambda>i. int i mod step = 0) [0..<m]"
    if "m \<le> n" for m
    using that by (induction m) simp_all
  then show ?thesis using assms by (simp add: slice_step_def)
qed

lemma mod_int_dvd_nat:
  assumes "0 < step"
  shows "int i mod step = 0 \<longleftrightarrow> nat step dvd i"
proof -
  have "int i mod step = 0 \<longleftrightarrow> step dvd int i" by (simp add: dvd_eq_mod_eq_0)
  also have "\<dots> \<longleftrightarrow> int (nat step) dvd int i" using assms by simp
  also have "\<dots> \<longleftrightarrow> nat step dvd i" by (simp only: int_dvd_int_iff)
  finally show ?thesis .
qed

lemma enumerate_filter_cong:
  assumes "\<And>j. i \<le> j \<Longrightarrow> j < i + length segs \<Longrightarrow> P j = Q j"
  shows "[f seg. (j, seg) \<leftarrow> enumerate i segs, P j] = [f seg. (j, seg) \<leftarrow> enumerate i segs, Q j]"
  using assms
proof (induction segs arbitrary: i)
  case Nil
  show ?case by simp
next
  case (Cons seg segs)
  have "P i = Q i" using Cons.prems by simp
  moreover have "[f seg. (j, seg) \<leftarrow> enumerate (Suc i) segs, P j]
      = [f seg. (j, seg) \<leftarrow> enumerate (Suc i) segs, Q j]"
    using Cons.prems by (intro Cons.IH) simp
  ultimately show ?case by simp
qed


lemma length_seven_segments: "length seven_segments = 7"
  by (simp add: seven_segments_def)

lemma systematic_step_7_4: "systematic_step Py3 7 4 = Inr 2"
  by code_simp

lemma systematic_step_99_2: "systematic_step v 99 2 = Inr 49"
  by (cases v; hypsubst; code_simp)

text \<open>
  C9, as amended. For a segmentation of length \<open>1 \<le> L < 2\<^sup>5\<^sup>2\<close> and a sample size
  \<open>1 \<le> k < 2\<^sup>6\<^sup>4\<close>, the call returns; the systematic sample is made of the segments whose
  index is a multiple of the stride \<open>s\<close>, in order, and the second output, labelled with
  the prefix \<^verbatim>\<open>NEG_\<close>, of all the others. The stride is at least 1 and is not the floor
  of \<open>L / k\<close>: it is \<^verbatim>\<open>iround\<close> of the double \<open>x\<close> that the two rounded divisions
  \<^verbatim>\<open>1 / (k / L)\<close> give, that is \<open>x\<close> rounded to a nearest integer (or 1 when \<open>x\<close> is below
  one half), and \<open>x\<close> is \<open>L / k\<close> up to a relative error of \<open>2\<^sup>-\<^sup>5\<^sup>1\<close>.
\<close>

theorem sample_systematic_stride:
  assumes "buffer S \<noteq> []" and "length (buffer S) < 2 ^ 52" and "0 < k" and "k < 2 ^ 64"
  shows "\<exists>new neg s x.
           sample v drawn S k ''systematic'' lbl ca ana
             = Inr (auto_number_if ana new, auto_number_if ana neg) \<and>
           label new = lbl \<and> label neg = ''NEG_'' @ lbl \<and>
           buffer new = [deepcopy seg ca. (i, seg) \<leftarrow> enumerate 0 (buffer S), nat s dvd i] \<and>
           buffer neg = [deepcopy seg ca. (i, seg) \<leftarrow> enumerate 0 (buffer S), \<not> nat s dvd i] \<and>
           systematic_step v (length (buffer S)) k = Inr s \<and>
           x = round53 (1 / round53 (of_nat k / of_nat (length (buffer S)))) \<and>
           iround v (Finite x) = Inr s \<and>
           1 \<le> s \<and>
           (\<bar>x - of_int s\<bar> \<le> 1 / 2 \<or> s = 1 \<and> x < 1 / 2) \<and>
           \<bar>x - of_nat (length (buffer S)) / of_nat k\<bar>
              \<le> (of_nat (length (buffer S)) / of_nat k) * 2 powi (- 51)"
proof -
  let ?n = "length (buffer S)"
  define x where "x = round53 (1 / round53 (of_nat k / of_nat ?n))"
  have n: "0 < ?n" using assms(1) by simp
  note dbl = systematic_step_double [OF n assms(2) assms(3) assms(4), folded x_def]
  from iround_pos [OF dbl(2) dbl(3), of v] obtain s where ir: "iround v (Finite x) = Inr s"
    and s: "1 \<le> s" and near: "\<bar>x - of_int s\<bar> \<le> 1 / 2 \<or> s = 1 \<and> x < 1 / 2" by blast
  have step: "systematic_step v ?n k = Inr s" using dbl(1) ir by simp
  let ?idxs = "filter (\<lambda>i. int i mod s = 0) [0..<?n]"
  have idx: "sampled_indices_of v drawn ?n k ''systematic'' = Inr ?idxs"
    using step s by (simp add: sampled_indices_of_def slice_step_upt)
  obtain new neg where loop:
    "sample_loop ?idxs ca 0 (buffer S) (Segmentation_empty lbl, Segmentation_empty (''NEG_'' @ lbl))
       = (new, neg)" by force
  have mem: "j \<in> set ?idxs \<longleftrightarrow> nat s dvd j" if "j < 0 + ?n" for j
    using that s by (simp add: mod_int_dvd_nat)
  from sample_loop_result [OF loop]
  have lnew: "label new = lbl" and lneg: "label neg = ''NEG_'' @ lbl"
    and bnew: "buffer new = [deepcopy seg ca. (j, seg) \<leftarrow> enumerate 0 (buffer S), j \<in> set ?idxs]"
    and bneg: "buffer neg = [deepcopy seg ca. (j, seg) \<leftarrow> enumerate 0 (buffer S), j \<notin> set ?idxs]"
    by (simp_all add: Segmentation_empty_def)
  have bnew': "buffer new = [deepcopy seg ca. (j, seg) \<leftarrow> enumerate 0 (buffer S), nat s dvd j]"
    unfolding bnew by (rule enumerate_filter_cong) (use mem in blast)
  have bneg': "buffer neg = [deepcopy seg ca. (j, seg) \<leftarrow> enumerate 0 (buffer S), \<not> nat s dvd j]"
    unfolding bneg by (rule enumerate_filter_cong) (use mem in blast)
  have res: "sample v drawn S k ''systematic'' lbl ca ana
      = Inr (auto_number_if ana new, auto_number_if ana neg)"
    using idx loop by (simp add: sample_def)
  show ?thesis
    by (rule exI [of _ new], rule exI [of _ neg], rule exI [of _ s], rule exI [of _ x], intro conjI)
       (fact res lnew lneg bnew' bneg' step x_def ir s near dbl(4))+
qed

theorem sample_systematic_stride_witness:
  "\<exists>new neg.
     sample Py3 [] (Segmentation_of_list seven_segments ''letters'') 4 ''systematic''
        ''sampled_data'' True None = Inr (new, neg) \<and>
     map start (buffer new) = [Some 0, Some 2, Some 4, Some 6] \<and>
     map start (buffer neg) = [Some 1, Some 3, Some 5]"
proof -
  let ?S = "Segmentation_of_list seven_segments ''letters''"
  have ne: "buffer ?S \<noteq> []" using length_seven_segments by auto
  have len: "length (buffer ?S) < 2 ^ 52" by (simp add: length_seven_segments)
  from sample_systematic_stride [OF ne len, of 4 Py3 "[]" "''sampled_data''" True None]
  obtain new neg s where
    "sample Py3 [] ?S 4 ''systematic'' ''sampled_data'' True None = Inr (new, neg)"
    "buffer new = [deepcopy seg True. (i, seg) \<leftarrow> enumerate 0 seven_segments, nat s dvd i]"
    "buffer neg = [deepcopy seg True. (i, seg) \<leftarrow> enumerate 0 seven_segments, \<not> nat s dvd i]"
    "systematic_step Py3 7 4 = Inr s"
    by (auto simp add: auto_number_if_def length_seven_segments)
  moreover from this(4) have "s = 2" by (simp add: systematic_step_7_4)
  moreover have
    "map start [deepcopy seg True. (i, seg) \<leftarrow> enumerate 0 seven_segments, nat 2 dvd i]
       = [Some 0, Some 2, Some 4, Some 6]"
    "map start [deepcopy seg True. (i, seg) \<leftarrow> enumerate 0 seven_segments, \<not> nat 2 dvd i]
       = [Some 1, Some 3, Some 5]"
    by (simp_all add: seven_segments_def deepcopy_def)
  ultimately show ?thesis by auto
qed

text \<open>
  The claim as stated gives the stride \<open>\<lfloor>7 / 4\<rfloor> = 1\<close>, which selects all seven segments;
  the code selects the segments 0, 2, 4 and 6.
\<close>

theorem sample_systematic_floor_counterexample:
  "map_sum id (map_prod (map start \<circ> buffer) (map start \<circ> buffer))
     (sample Py3 [] (Segmentation_of_list seven_segments ''letters'') 4 ''systematic''
        ''sampled_data'' True None)
     = Inr ([Some 0, Some 2, Some 4, Some 6], [Some 1, Some 3, Some 5])
   \<and> [seg. (i, seg) \<leftarrow> enumerate 0 seven_segments, (7 div 4 :: nat) dvd i] = seven_segments"
proof -
  have "[i \<leftarrow> [0..<7]. int i mod 2 = 0] = [0, 2, 4, 6]"
    by (simp add: upt_rec [of 0] upt_rec [of "Suc _"] eval_nat_numeral)
  then have idx: "sampled_indices_of Py3 [] (length seven_segments) 4 ''systematic'' = Inr [0, 2, 4, 6]"
    using systematic_step_7_4
    by (simp add: sampled_indices_of_def slice_step_upt length_seven_segments)
  have "sample Py3 [] (Segmentation_of_list seven_segments ''letters'') 4 ''systematic''
        ''sampled_data'' True None
      = (case sample_loop [0, 2, 4, 6] True 0 seven_segments
                (Segmentation_empty ''sampled_data'', Segmentation_empty ''NEG_sampled_data'') of
           (new, neg) \<Rightarrow> Inr (new, neg))"
    by (simp add: sample_def idx auto_number_if_def)
  then show ?thesis
    by (simp add: seven_segments_def Segmentation_empty_def Segmentation_append_def deepcopy_def)
qed

section \<open>Contained segments\<close>

lemma get_str_index_ptr_loop_run_starts:
  "get_str_index_ptr_loop temp last_seen i segs
     = dict_update temp (run_starts (map_option str_index last_seen) i segs)"
proof (induction segs arbitrary: temp last_seen i)
  case Nil
  show ?case by (simp add: dict_update_def)
next
  case (Cons s segs)
  show ?case by (cases last_seen) (simp_all add: Cons.IH dict_update_def)
qed

lemma update_fresh: "k \<notin> fst ` set al \<Longrightarrow> AList.update k v al = al @ [(k, v)]"
  by (induction al) auto

lemma dict_update_fresh:
  "distinct (map fst (d @ other)) \<Longrightarrow> dict_update d other = d @ other"
proof (induction other arbitrary: d)
  case Nil
  show ?case by (simp add: dict_update_def)
next
  case (Cons kv other)
  obtain k v where kv: "kv = (k, v)" by (cases kv)
  from Cons.prems kv have fresh: "k \<notin> fst ` set d" by auto
  from Cons.prems kv have "distinct (map fst ((d @ [(k, v)]) @ other))" by simp
  from Cons.IH [OF this] have "dict_update (d @ [(k, v)]) other = d @ (k, v) # other" by simp
  with fresh kv show ?case by (simp add: dict_update_def update_fresh)
qed

lemma ex_nat_cases: "(\<exists>j::nat. P j) \<longleftrightarrow> P 0 \<or> (\<exists>j. P (Suc j))"
  by (metis not0_implies_Suc)

lemma run_starts_iff:
  "(k, v) \<in> set (run_starts prev i segs) \<longleftrightarrow>
     (\<exists>j < length segs. v = i + j \<and> k = str_index (segs ! j) \<and>
        (if j = 0 then prev \<noteq> Some k else str_index (segs ! (j - 1)) \<noteq> k))"
proof (induction segs arbitrary: prev i)
  case Nil
  show ?case by simp
next
  case (Cons s segs)
  let ?R = "\<lambda>j. j < length (s # segs) \<and> v = i + j \<and> k = str_index ((s # segs) ! j) \<and>
        (if j = 0 then prev \<noteq> Some k else str_index ((s # segs) ! (j - 1)) \<noteq> k)"
  let ?T = "\<lambda>j. j < length segs \<and> v = Suc i + j \<and> k = str_index (segs ! j) \<and>
        (if j = 0 then Some (str_index s) \<noteq> Some k else str_index (segs ! (j - 1)) \<noteq> k)"
  have tail: "(k, v) \<in> set (run_starts (Some (str_index s)) (Suc i) segs) \<longleftrightarrow> (\<exists>j. ?T j)"
    using Cons.IH [of "Some (str_index s)" "Suc i"] by auto
  have step: "?R (Suc j) \<longleftrightarrow> ?T j" for j
    by (cases j) auto
  have "(\<exists>j. ?R j) \<longleftrightarrow> ?R 0 \<or> (\<exists>j. ?R (Suc j))"
    by (rule ex_nat_cases)
  also have "\<dots> \<longleftrightarrow> ?R 0 \<or> (\<exists>j. ?T j)" using step by simp
  also have "?R 0 \<longleftrightarrow> (k, v) \<in> set (if prev = Some (str_index s) then [] else [(str_index s, i)])"
    by auto
  finally show ?case using tail by auto
qed

lemma search_start_correct:
  assumes "lo < hi" "hi \<le> length segs"
    and "\<forall>i j. lo \<le> i \<and> i \<le> j \<and> j < hi \<longrightarrow> start_or_0 (segs ! i) \<le> start_or_0 (segs ! j)"
  shows "\<exists>r. search_start segs st lo hi = Some r \<and> lo \<le> r \<and> r < hi \<and>
           (r = lo \<or> start_or_0 (segs ! r) < st) \<and>
           (\<forall>j. r < j \<and> j < hi \<longrightarrow> st \<le> start_or_0 (segs ! j))"
  using assms
proof (induction segs st lo hi rule: search_start.induct)
  case (1 segs st lo hi)
  let ?mid = "(hi + lo) div 2"
  show ?case
  proof (cases "int hi - int lo > 1")
    case False
    with "1.prems"(1) have "hi = lo + 1" by linarith
    with False show ?thesis by (subst search_start.simps) auto
  next
    case True
    then have mid: "lo < ?mid" "?mid < hi" by linarith+
    with "1.prems"(2) have midlen: "?mid < length segs" by linarith
    show ?thesis
    proof (cases "start_or_0 (segs ! ?mid) \<ge> st")
      case ge: True
      have mono: "\<forall>i j. lo \<le> i \<and> i \<le> j \<and> j < ?mid \<longrightarrow> start_or_0 (segs ! i) \<le> start_or_0 (segs ! j)"
        using "1.prems"(3) mid by simp
      have "?mid \<le> length segs" using midlen by simp
      from "1.IH"(1) [OF True refl midlen ge mid(1) this mono]
      obtain r where r: "search_start segs st lo ?mid = Some r" "lo \<le> r" "r < ?mid"
        "r = lo \<or> start_or_0 (segs ! r) < st"
        "\<forall>j. r < j \<and> j < ?mid \<longrightarrow> st \<le> start_or_0 (segs ! j)" by blast
      have "st \<le> start_or_0 (segs ! j)" if "r < j" "j < hi" for j
      proof (cases "j < ?mid")
        case True
        with r(5) that show ?thesis by simp
      next
        case False
        then have "start_or_0 (segs ! ?mid) \<le> start_or_0 (segs ! j)"
          using "1.prems"(3) mid that by simp
        with ge show ?thesis by simp
      qed
      moreover have "search_start segs st lo hi = Some r"
        using True midlen ge r(1) by (subst search_start.simps) (simp add: Let_def)
      ultimately show ?thesis using r(2,3,4) mid by auto
    next
      case lt: False
      have mono: "\<forall>i j. ?mid \<le> i \<and> i \<le> j \<and> j < hi \<longrightarrow> start_or_0 (segs ! i) \<le> start_or_0 (segs ! j)"
        using "1.prems"(3) mid by simp
      from "1.IH"(2) [OF True refl midlen lt mid(2) "1.prems"(2) mono]
      obtain r where r: "search_start segs st ?mid hi = Some r" "?mid \<le> r" "r < hi"
        "r = ?mid \<or> start_or_0 (segs ! r) < st"
        "\<forall>j. r < j \<and> j < hi \<longrightarrow> st \<le> start_or_0 (segs ! j)" by blast
      have "start_or_0 (segs ! r) < st" using r(4) lt by auto
      moreover have "search_start segs st lo hi = Some r"
        using True midlen lt r(1) by (subst search_start.simps) (simp add: Let_def)
      ultimately show ?thesis using r(2,3,5) mid by auto
    qed
  qed
qed

lemma collect_contained_conv:
  "collect_contained si e slen xs
     = filter (\<lambda>s. end_or slen s \<le> e)
         (takeWhile (\<lambda>s. str_index s = si \<and> start_or_0 s \<le> e) xs)"
  by (induction xs) auto

lemma takeWhile_append_stop:
  "zs = [] \<or> \<not> P (hd zs) \<Longrightarrow> takeWhile P (ys @ zs) = takeWhile P ys"
  by (induction ys) (cases zs; auto)+

lemma filter_takeWhile_sorted:
  fixes m g :: "'a \<Rightarrow> int"
  assumes "sorted (map m ys)" "\<forall>y \<in> set ys. m y \<le> g y"
  shows "filter (\<lambda>y. g y \<le> e) (takeWhile (\<lambda>y. m y \<le> e) ys) = filter (\<lambda>y. g y \<le> e) ys"
  using assms
proof (induction ys)
  case Nil
  show ?case by simp
next
  case (Cons y ys)
  show ?case
  proof (cases "m y \<le> e")
    case True
    with Cons show ?thesis by simp
  next
    case False
    have "\<not> g z \<le> e" if "z \<in> set (y # ys)" for z
    proof -
      have "m y \<le> m z" using Cons.prems(1) that by auto
      moreover have "m z \<le> g z" using Cons.prems(2) that by blast
      ultimately show ?thesis using False by simp
    qed
    then have "filter (\<lambda>y. g y \<le> e) (y # ys) = []" by (simp add: filter_empty_conv)
    with False show ?thesis by simp
  qed
qed

lemma contains_iff:
  assumes "string_length data (str_index a) = Inr slen"
  shows "contains data a s = Inr True \<longleftrightarrow>
           str_index s = str_index a \<and> start_or_0 a \<le> start_or_0 s \<and>
           end_or slen s \<le> end_or slen a"
  using assms by (auto simp: contains_def)

lemma sorted_filter_nth:
  fixes f :: "'a \<Rightarrow> int"
  assumes "sorted (map f (filter P xs))" "i \<le> j" "j < length xs" "P (xs ! i)" "P (xs ! j)"
  shows "f (xs ! i) \<le> f (xs ! j)"
  using assms
proof (induction xs arbitrary: i j)
  case Nil
  then show ?case by simp
next
  case (Cons x xs)
  show ?case
  proof (cases i)
    case 0
    show ?thesis
    proof (cases j)
      case j0: 0
      with 0 show ?thesis by simp
    next
      case (Suc j')
      with Cons.prems 0 have "xs ! j' \<in> set (filter P xs)" by simp
      with Cons.prems 0 Suc show ?thesis by auto
    qed
  next
    case (Suc i')
    with Cons.prems obtain j' where j': "j = Suc j'" by (cases j) simp_all
    from Cons.prems(1) have "sorted (map f (filter P xs))" by (simp split: if_splits)
    from Cons.IH [OF this, of i' j'] Cons.prems Suc j' show ?thesis by simp
  qed
qed

text \<open>
  C1, as amended. Let \<open>a\<close> be a segment on a string of the store. Whatever \<open>B\<close> is,
  \<^verbatim>\<open>a.get_contained_segments(B)\<close> is empty when \<^verbatim>\<open>str_index_ptr\<close> has no entry for the
  \<^verbatim>\<open>str_index\<close> of \<open>a\<close>. When \<^verbatim>\<open>str_index_ptr\<close> holds exactly the positions at which the
  runs of equal \<^verbatim>\<open>str_index\<close> of \<open>B\<close> start, one for each \<^verbatim>\<open>str_index\<close>, and the segments
  of \<open>B\<close> with the \<^verbatim>\<open>str_index\<close> of \<open>a\<close> are in ascending order of materialized \<^verbatim>\<open>start\<close>
  and start no later than they end, the result is exactly the segments of \<open>B\<close>, in the
  order of \<open>B\<close>, that \<^verbatim>\<open>a.contains\<close> accepts: those with the \<^verbatim>\<open>str_index\<close> of \<open>a\<close> whose
  materialized range lies within that of \<open>a\<close>.
\<close>

theorem get_contained_segments_sorted:
  assumes len: "string_length data (str_index a) = Inr slen"
  shows "(map_of (str_index_ptr B) (str_index a) = None
            \<longrightarrow> get_contained_segments data a B = Inr [])
         \<and> (distinct (map fst (str_index_ptr B))
              \<and> set (str_index_ptr B) = set (run_starts None 0 (buffer B))
              \<and> sorted (map start_or_0 (filter (\<lambda>s. str_index s = str_index a) (buffer B)))
              \<and> (\<forall>s \<in> set (buffer B).
                    str_index s = str_index a \<longrightarrow> start_or_0 s \<le> end_or slen s)
            \<longrightarrow> get_contained_segments data a B
                  = Inr (filter (\<lambda>s. contains data a s = Inr True) (buffer B)))"
proof (intro conjI impI)
  show "get_contained_segments data a B = Inr []"
    if "map_of (str_index_ptr B) (str_index a) = None"
    using len that by (simp add: get_contained_segments_def contained_try_def)
next
  assume hyps: "distinct (map fst (str_index_ptr B))
      \<and> set (str_index_ptr B) = set (run_starts None 0 (buffer B))
      \<and> sorted (map start_or_0 (filter (\<lambda>s. str_index s = str_index a) (buffer B)))
      \<and> (\<forall>s \<in> set (buffer B).
            str_index s = str_index a \<longrightarrow> start_or_0 s \<le> end_or slen s)"
  then have dist: "distinct (map fst (str_index_ptr B))"
    and ptr: "set (str_index_ptr B) = set (run_starts None 0 (buffer B))"
    and srt: "sorted (map start_or_0 (filter (\<lambda>s. str_index s = str_index a) (buffer B)))"
    and wf: "\<forall>s \<in> set (buffer B). str_index s = str_index a \<longrightarrow> start_or_0 s \<le> end_or slen s"
    by simp_all
  define buf where "buf = buffer B"
  define n where "n = length buf"
  define si where "si = str_index a"
  define st where "st = start_or_0 a"
  define e where "e = end_or slen a"
  define key where "key = (\<lambda>j. str_index (buf ! j))"
  define m where "m = (\<lambda>j. start_or_0 (buf ! j))"
  define C where "C = (\<lambda>s. contains data a s = Inr True)"
  have C_iff: "C s \<longleftrightarrow> str_index s = si \<and> st \<le> start_or_0 s \<and> end_or slen s \<le> e" for s
    unfolding C_def si_def st_def e_def by (rule contains_iff [OF len])
  have mem: "(k, v) \<in> set (str_index_ptr B) \<longleftrightarrow> v < n \<and> k = key v \<and> (v = 0 \<or> key (v - 1) \<noteq> k)"
    for k v
    unfolding ptr buf_def [symmetric] run_starts_iff n_def key_def by auto
  have lookup: "map_of (str_index_ptr B) k = Some v \<longleftrightarrow> (k, v) \<in> set (str_index_ptr B)" for k v
    using dist by simp
  have m_mono: "m i \<le> m j" if "i \<le> j" "j < n" "key i = si" "key j = si" for i j
    using sorted_filter_nth [OF srt [folded buf_def si_def], of i j] that
    by (simp add: m_def key_def n_def)
  have unfold: "get_contained_segments data a B
      = Inr (case contained_try a slen B of None \<Rightarrow> [] | Some ret \<Rightarrow> ret)"
    using len by (simp add: get_contained_segments_def)
  show "get_contained_segments data a B = Inr (filter (\<lambda>s. contains data a s = Inr True) (buffer B))"
  proof (cases "\<exists>j < n. key j = si")
    case False
    then have "map_of (str_index_ptr B) si = None"
      using lookup mem by (metis not_Some_eq)
    then have "get_contained_segments data a B = Inr []"
      unfolding unfold by (simp add: contained_try_def si_def)
    moreover have "filter C buf = []"
      using False unfolding filter_empty_conv C_iff n_def key_def by (metis in_set_conv_nth)
    ultimately show ?thesis by (simp add: C_def buf_def)
  next
    case True
    define p where "p = (LEAST j. j < n \<and> key j = si)"
    have p: "p < n" "key p = si"
      using LeastI_ex [OF True] unfolding p_def by simp_all
    have before_p: "key j \<noteq> si" if "j < p" for j
      using not_less_Least [of j "\<lambda>j. j < n \<and> key j = si"] that p(1) unfolding p_def by simp
    define q where "q = (LEAST j. p < j \<and> (j = n \<or> key j \<noteq> si))"
    have exq: "p < n \<and> (n = n \<or> key n \<noteq> si)" using p by simp
    have q: "p < q" "q = n \<or> key q \<noteq> si"
      using LeastI [of "\<lambda>j. p < j \<and> (j = n \<or> key j \<noteq> si)" n, OF exq] unfolding q_def by simp_all
    have qn: "q \<le> n"
      using Least_le [of "\<lambda>j. p < j \<and> (j = n \<or> key j \<noteq> si)" n, OF exq] unfolding q_def by simp
    have run: "key j = si" if "p \<le> j" "j < q" for j
    proof (cases "j = p")
      case False
      with that have "p < j" by simp
      with not_less_Least [of j "\<lambda>j. p < j \<and> (j = n \<or> key j \<noteq> si)"] that(2)
      show ?thesis unfolding q_def by simp
    qed (simp add: p)
    have after_q: "key j \<noteq> si" if "q \<le> j" "j < n" for j
    proof
      assume eq: "key j = si"
      from that qn have "q < n" by simp
      with q(2) have kq: "key q \<noteq> si" by simp
      define j' where "j' = (LEAST i. q < i \<and> key i = si)"
      from eq kq that have ex: "q < j \<and> key j = si" by (cases "j = q") auto
      from LeastI [of "\<lambda>i. q < i \<and> key i = si" j, OF ex]
      have j': "q < j'" "key j' = si" unfolding j'_def by simp_all
      from Least_le [of "\<lambda>i. q < i \<and> key i = si" j, OF ex] that
      have "j' < n" unfolding j'_def by simp
      have "key (j' - 1) \<noteq> si"
      proof (cases "j' - 1 = q")
        case True
        with kq show ?thesis by simp
      next
        case False
        with j'(1) have "q < j' - 1" "j' - 1 < j'" by simp_all
        with not_less_Least [of "j' - 1" "\<lambda>i. q < i \<and> key i = si"]
        show ?thesis unfolding j'_def by auto
      qed
      with j' \<open>j' < n\<close> have "(si, j') \<in> set (str_index_ptr B)" by (simp add: mem)
      moreover have "p = 0 \<or> key (p - 1) \<noteq> si" using before_p [of "p - 1"] by (cases p) simp_all
      with p have "(si, p) \<in> set (str_index_ptr B)" by (simp add: mem)
      ultimately have "j' = p" using dist by (metis eq_key_imp_eq_value)
      with j'(1) q(1) show False by simp
    qed
    have ptr_p: "map_of (str_index_ptr B) si = Some p"
    proof -
      have "p = 0 \<or> key (p - 1) \<noteq> si" using before_p [of "p - 1"] by (cases p) simp_all
      then show ?thesis using p by (simp add: lookup mem)
    qed
    let ?V = "set (filter (\<lambda>x. x > p) (map snd (str_index_ptr B)) @ [n])"
    have Min_q: "Min ?V = q"
    proof (rule Min_eqI)
      show "finite ?V" by simp
      show "q \<in> ?V"
      proof (cases "q = n")
        case False
        with qn q(2) have "q < n" "key q \<noteq> si" by simp_all
        moreover have "key (q - 1) = si" using run [of "q - 1"] q(1) by simp
        ultimately have "(key q, q) \<in> set (str_index_ptr B)" by (simp add: mem)
        then have "q \<in> snd ` set (str_index_ptr B)" by force
        with q(1) show ?thesis by simp
      qed simp
      fix x assume "x \<in> ?V"
      then consider "x = n" | k where "(k, x) \<in> set (str_index_ptr B)" "p < x" by auto
      then show "q \<le> x"
      proof cases
        case 1
        with qn show ?thesis by simp
      next
        case 2
        show ?thesis
        proof (rule ccontr)
          assume "\<not> q \<le> x"
          then have "x < q" by simp
          with 2(2) have "key x = si" "key (x - 1) = si" using run [of x] run [of "x - 1"] by simp_all
          with 2 show False by (simp add: mem)
        qed
      qed
    qed
    have mono: "\<forall>i j. p \<le> i \<and> i \<le> j \<and> j < q \<longrightarrow> start_or_0 (buf ! i) \<le> start_or_0 (buf ! j)"
    proof (intro allI impI)
      fix i j assume "p \<le> i \<and> i \<le> j \<and> j < q"
      then have "m i \<le> m j" using run [of i] run [of j] qn by (intro m_mono) simp_all
      then show "start_or_0 (buf ! i) \<le> start_or_0 (buf ! j)" by (simp add: m_def)
    qed
    from search_start_correct [OF q(1) _ mono, of st] qn
    obtain r where r: "search_start buf st p q = Some r" "p \<le> r" "r < q"
      "r = p \<or> m r < st" "\<forall>j. r < j \<and> j < q \<longrightarrow> st \<le> m j"
      unfolding n_def m_def by blast
    define first where "first = (if m r \<ge> st then r else r + 1)"
    have first: "p \<le> first" "first \<le> q" using r(2,3) by (simp_all add: first_def)
    have below: "m j < st" if "p \<le> j" "j < first" for j
    proof -
      from that have nge: "\<not> m r \<ge> st" and "j \<le> r"
        using r(2,4) by (auto simp: first_def split: if_splits)
      then have "m j \<le> m r" using m_mono [of j r] that(1) r(2,3) qn run by simp
      with nge show ?thesis by simp
    qed
    have above: "st \<le> m j" if "first \<le> j" "j < q" for j
    proof (cases "m r \<ge> st")
      case True
      then have "r = p" using r(4) by auto
      then have "m r \<le> m j" using m_mono [of r j] that first qn run p by (simp add: first_def True)
      with True show ?thesis by simp
    next
      case False
      then have "r < j" using that by (simp add: first_def)
      with r(5) that show ?thesis by simp
    qed
    have try_eq: "contained_try a slen B = Some (collect_contained si e slen (drop first buf))"
      using ptr_p Min_q r(1,3) qn
      by (simp add: contained_try_def getitem_def first_def m_def
          si_def [symmetric] st_def [symmetric] e_def [symmetric] buf_def [symmetric]
          n_def [symmetric])
    define ys where "ys = take (q - first) (drop first buf)"
    define zs where "zs = drop q buf"
    have zs_eq: "zs = drop (q - first) (drop first buf)" using first by (simp add: zs_def)
    have tail: "drop first buf = ys @ zs"
      unfolding ys_def zs_eq by (rule append_take_drop_id [symmetric])
    have split: "buf = take first buf @ ys @ zs"
      using append_take_drop_id [of first buf] tail by simp
    have ys_nth: "\<exists>j. first \<le> j \<and> j < q \<and> y = buf ! j" if "y \<in> set ys" for y
    proof -
      from that obtain i where "i < length ys" "y = ys ! i" by (auto simp: in_set_conv_nth)
      with first qn show ?thesis
        by (intro exI [of _ "first + i"]) (auto simp: ys_def n_def)
    qed
    have ys_key: "str_index y = si" and ys_st: "st \<le> start_or_0 y"
      and ys_wf: "start_or_0 y \<le> end_or slen y" if "y \<in> set ys" for y
    proof -
      from ys_nth [OF that] obtain j where j: "first \<le> j" "j < q" "y = buf ! j" by blast
      show "str_index y = si" using run [of j] j first by (simp add: key_def)
      then show "start_or_0 y \<le> end_or slen y"
        using wf j qn by (simp add: si_def buf_def n_def)
      show "st \<le> start_or_0 y" using above [of j] j by (simp add: m_def)
    qed
    have ys_sorted: "sorted (map start_or_0 ys)"
    proof -
      have "start_or_0 (ys ! i) \<le> start_or_0 (ys ! j)" if "i < j" "j < length ys" for i j
      proof -
        from that have lt: "first + i < q" "first + j < q" by (auto simp add: ys_def)
        then have "key (first + i) = si" "key (first + j) = si"
          using run [of "first + i"] run [of "first + j"] first by simp_all
        then have "m (first + i) \<le> m (first + j)"
          using that lt qn by (intro m_mono) simp_all
        moreover have "ys ! i = buf ! (first + i)" "ys ! j = buf ! (first + j)"
          using that first qn by (simp_all add: ys_def n_def)
        ultimately show ?thesis by (simp add: m_def)
      qed
      then show ?thesis by (simp add: sorted_iff_nth_mono_less)
    qed
    have zs_stop: "zs = [] \<or> \<not> (str_index (hd zs) = si \<and> start_or_0 (hd zs) \<le> e)"
    proof (cases "q < n")
      case True
      then have "hd zs = buf ! q" by (simp add: zs_def hd_drop_conv_nth n_def)
      with after_q [of q] True show ?thesis by (simp add: key_def)
    next
      case False
      then show ?thesis by (simp add: zs_def n_def)
    qed
    have no_C_before: "filter C (take first buf) = []"
    proof -
      have "\<not> C y" if "y \<in> set (take first buf)" for y
      proof -
        from that obtain j where j: "j < first" "j < n" "y = buf ! j"
          by (auto simp: in_set_conv_nth n_def)
        show ?thesis
        proof (cases "j < p")
          case True
          with before_p j show ?thesis by (simp add: C_iff key_def)
        next
          case False
          with below [of j] j show ?thesis by (simp add: C_iff m_def)
        qed
      qed
      then show ?thesis by (simp add: filter_empty_conv)
    qed
    have no_C_after: "filter C zs = []"
    proof -
      have "\<not> C y" if "y \<in> set zs" for y
      proof -
        from that obtain i where "i < length zs" "y = zs ! i" by (auto simp: in_set_conv_nth)
        then have "y = buf ! (q + i)" "q + i < n" using qn by (simp_all add: zs_def n_def)
        with after_q [of "q + i"] show ?thesis by (simp add: C_iff key_def)
      qed
      then show ?thesis by (simp add: filter_empty_conv)
    qed
    have C_ys: "filter C ys = filter (\<lambda>s. end_or slen s \<le> e) ys"
      by (rule filter_cong) (simp_all add: C_iff ys_key ys_st)
    have "collect_contained si e slen (drop first buf)
        = filter (\<lambda>s. end_or slen s \<le> e)
            (takeWhile (\<lambda>s. str_index s = si \<and> start_or_0 s \<le> e) (ys @ zs))"
      by (simp add: collect_contained_conv tail)
    also have "takeWhile (\<lambda>s. str_index s = si \<and> start_or_0 s \<le> e) (ys @ zs)
        = takeWhile (\<lambda>s. str_index s = si \<and> start_or_0 s \<le> e) ys"
      by (rule takeWhile_append_stop) (rule zs_stop)
    also have "\<dots> = takeWhile (\<lambda>s. start_or_0 s \<le> e) ys"
      by (rule takeWhile_cong) (simp_all add: ys_key)
    also have "filter (\<lambda>s. end_or slen s \<le> e) \<dots> = filter (\<lambda>s. end_or slen s \<le> e) ys"
      by (rule filter_takeWhile_sorted [OF ys_sorted]) (simp add: ys_wf)
    also have "\<dots> = filter C buf"
    proof -
      have "filter C buf = filter C (take first buf @ ys @ zs)" using split by simp
      then show ?thesis by (simp add: no_C_before no_C_after C_ys)
    qed
    finally show ?thesis
      unfolding unfold try_eq by (simp add: C_def buf_def)
  qed
qed


text \<open>
  A segmentation built by two calls of \<^verbatim>\<open>extend\<close>: the vowels of \<^verbatim>\<open>"un texte"\<close>, then a
  segment of a second string. The word \<^verbatim>\<open>texte\<close> contains the two vowels \<^verbatim>\<open>e\<close>; a segment of
  a third string, which no segment points into, contains nothing.
\<close>

theorem get_contained_segments_sorted_witness:
  "get_contained_segments [Str ''un texte'', Str ''autre''] word_texte
       (build ''B'' [Extend vowels,
                     Extend [\<lparr>str_index = 1, start = Some 0, end' = Some 5, annotations = []\<rparr>]])
     = Inr [\<lparr>str_index = 0, start = Some 4, end' = Some 5, annotations = []\<rparr>,
            \<lparr>str_index = 0, start = Some 7, end' = Some 8, annotations = []\<rparr>]
   \<and> get_contained_segments [Str ''un texte'', Str ''autre'', Str ''fin'']
        \<lparr>str_index = 2, start = Some 0, end' = Some 3, annotations = []\<rparr>
        (build ''B'' [Extend vowels,
                      Extend [\<lparr>str_index = 1, start = Some 0, end' = Some 5, annotations = []\<rparr>]])
     = Inr []"
proof -
  let ?B = "build ''B'' [Extend vowels,
              Extend [\<lparr>str_index = 1, start = Some 0, end' = Some 5, annotations = []\<rparr>]]"
  let ?other = "\<lparr>str_index = 2, start = Some 0, end' = Some 3, annotations = []\<rparr>"
  have B: "buffer ?B
        = vowels @ [\<lparr>str_index = 1, start = Some 0, end' = Some 5, annotations = []\<rparr>]"
      "str_index_ptr ?B = [(1, 3), (0, 0)]"
    by (simp_all add: build_def Segmentation_empty_def Segmentation_extend_def
        get_str_index_ptr_def dict_update_def vowels_def)
  have len0: "string_length [Str ''un texte'', Str ''autre''] 0 = Inr 8"
    by (simp add: string_length_def get_data_def py_nth_def)
  then have len: "string_length [Str ''un texte'', Str ''autre''] (str_index word_texte) = Inr 8"
    by (simp add: word_texte_def)
  have len': "string_length [Str ''un texte'', Str ''autre'', Str ''fin''] (str_index ?other) = Inr 3"
    by (simp add: string_length_def get_data_def py_nth_def)
  have dist: "distinct (map fst (str_index_ptr ?B))" unfolding B by simp
  have ptr: "set (str_index_ptr ?B) = set (run_starts None 0 (buffer ?B))"
    unfolding B by (auto simp add: vowels_def)
  have srt: "sorted (map start_or_0 (filter (\<lambda>s. str_index s = str_index word_texte) (buffer ?B)))"
    unfolding B by (simp add: vowels_def word_texte_def start_or_0_def py_or_def)
  have wf: "\<forall>s \<in> set (buffer ?B). str_index s = str_index word_texte \<longrightarrow> start_or_0 s \<le> end_or 8 s"
    unfolding B by (simp add: vowels_def start_or_0_def end_or_def py_or_def word_texte_def)
  have none: "map_of (str_index_ptr ?B) (str_index ?other) = None"
    unfolding B by simp
  have "filter (\<lambda>s. contains [Str ''un texte'', Str ''autre''] word_texte s = Inr True) (buffer ?B)
      = [\<lparr>str_index = 0, start = Some 4, end' = Some 5, annotations = []\<rparr>,
         \<lparr>str_index = 0, start = Some 7, end' = Some 8, annotations = []\<rparr>]"
    unfolding B by (simp add: contains_def len0 vowels_def word_texte_def
        start_or_0_def end_or_def py_or_def)
  with get_contained_segments_sorted [OF len, of ?B, THEN conjunct2, rule_format,
         OF conjI [OF dist conjI [OF ptr conjI [OF srt wf]]]]
       get_contained_segments_sorted [OF len', of ?B, THEN conjunct1, rule_format, OF none]
  show ?thesis by simp
qed

text \<open>
  The claim as stated fails on three inputs: a segmentation that is not sorted by
  \<^verbatim>\<open>start\<close>; a segment whose \<^verbatim>\<open>str_index\<close> is a redirection to the string of the other
  segmentation; a segment whose \<^verbatim>\<open>start\<close> lies after its \<^verbatim>\<open>end\<close>. Each time the code
  returns the empty list and one segment lies within the range.
\<close>

theorem get_contained_segments_counterexample:
  "get_contained_segments [Str ''un texte'']
       \<lparr>str_index = 0, start = Some 0, end' = Some 3, annotations = []\<rparr>
       (Segmentation_of_list descending_pair ''pair'') = Inr []
   \<and> filter (lies_within_spec [Str ''un texte'']
                \<lparr>str_index = 0, start = Some 0, end' = Some 3, annotations = []\<rparr>)
        (buffer (Segmentation_of_list descending_pair ''pair''))
      = [\<lparr>str_index = 0, start = Some 1, end' = Some 2, annotations = []\<rparr>]
   \<and> get_contained_segments [Str ''un texte'', Ptr 0]
       \<lparr>str_index = 1, start = Some 0, end' = Some 8, annotations = []\<rparr>
       (Segmentation_of_list
          [\<lparr>str_index = 0, start = Some 1, end' = Some 2, annotations = []\<rparr>] ''one'') = Inr []
   \<and> filter (lies_within_spec [Str ''un texte'', Ptr 0]
                \<lparr>str_index = 1, start = Some 0, end' = Some 8, annotations = []\<rparr>)
        (buffer (Segmentation_of_list
          [\<lparr>str_index = 0, start = Some 1, end' = Some 2, annotations = []\<rparr>] ''one''))
      = [\<lparr>str_index = 0, start = Some 1, end' = Some 2, annotations = []\<rparr>]
   \<and> get_contained_segments [Str ''un texte'']
       \<lparr>str_index = 0, start = Some 0, end' = Some 3, annotations = []\<rparr>
       (Segmentation_of_list
          [\<lparr>str_index = 0, start = Some 5, end' = Some 2, annotations = []\<rparr>] ''one'') = Inr []
   \<and> filter (lies_within_spec [Str ''un texte'']
                \<lparr>str_index = 0, start = Some 0, end' = Some 3, annotations = []\<rparr>)
        (buffer (Segmentation_of_list
          [\<lparr>str_index = 0, start = Some 5, end' = Some 2, annotations = []\<rparr>] ''one''))
      = [\<lparr>str_index = 0, start = Some 5, end' = Some 2, annotations = []\<rparr>]"
proof -
  have len: "string_length [Str ''un texte''] 0 = Inr 8"
    "string_length [Str ''un texte'', Ptr 0] 1 = Inr 8"
    by (simp_all add: string_length_def get_data_def py_nth_def)
  have data: "get_data [Str ''un texte''] 0 = Inr (Str ''un texte'')"
    "get_data [Str ''un texte'', Ptr 0] 0 = Inr (Str ''un texte'')"
    "get_data [Str ''un texte'', Ptr 0] 1 = Inr (Str ''un texte'')"
    by (simp_all add: get_data_def py_nth_def)
  have search: "search_start descending_pair 0 0 2 = Some 0"
    by (subst search_start.simps, subst search_start.simps)
       (simp add: descending_pair_def start_or_0_def py_or_def)
  have one: "search_start [seg] 0 0 1 = Some 0" for seg
    by (subst search_start.simps) simp
  show ?thesis
    using len search one
    by (simp add: get_contained_segments_def contained_try_def lies_within_spec_def data
        getitem_def Segmentation_of_list_def get_str_index_ptr_def descending_pair_def
        start_or_0_def end_or_def py_or_def)
qed

section \<open>The pointer to the first segment of a string\<close>

lemma run_starts_append:
  "run_starts prev i (xs @ ys)
     = run_starts prev i xs
       @ run_starts (if xs = [] then prev else Some (str_index (last xs))) (i + length xs) ys"
  by (induction xs arbitrary: prev i) simp_all

text \<open>
  The invariant of a segmentation with contiguous runs: \<^verbatim>\<open>str_index_ptr\<close> holds exactly
  the starts of the runs.
\<close>

lemma append_run_starts:
  assumes "contiguous_runs (buffer S @ [seg])"
    and "distinct (map fst (str_index_ptr S))"
    and "set (str_index_ptr S) = set (run_starts None 0 (buffer S))"
  shows "distinct (map fst (str_index_ptr (Segmentation_append S seg)))"
    and "set (str_index_ptr (Segmentation_append S seg))
           = set (run_starts None 0 (buffer (Segmentation_append S seg)))"
proof -
  let ?prev = "if buffer S = [] then None else Some (str_index (last (buffer S)))"
  let ?new = "run_starts ?prev (length (buffer S)) [seg]"
  have rs: "run_starts None 0 (buffer S @ [seg]) = run_starts None 0 (buffer S) @ ?new"
    by (simp add: run_starts_append)
  have keys: "fst ` set (str_index_ptr S) = fst ` set (run_starts None 0 (buffer S))"
    using assms(3) by simp
  show "distinct (map fst (str_index_ptr (Segmentation_append S seg)))"
    using assms(2) by (simp add: Segmentation_append_def distinct_update)
  show "set (str_index_ptr (Segmentation_append S seg))
           = set (run_starts None 0 (buffer (Segmentation_append S seg)))"
  proof (cases "buffer S = [] \<or> str_index (last (buffer S)) \<noteq> str_index seg")
    case True
    then have new: "?new = [(str_index seg, length (buffer S))]" by auto
    from assms(1) have "str_index seg \<notin> fst ` set (run_starts None 0 (buffer S))"
      unfolding contiguous_runs_def rs new by auto
    with keys have "str_index seg \<notin> fst ` set (str_index_ptr S)" by simp
    then have "AList.update (str_index seg) (length (buffer S)) (str_index_ptr S)
        = str_index_ptr S @ [(str_index seg, length (buffer S))]"
      by (rule update_fresh)
    with True assms(3) rs new show ?thesis
      by (auto simp: Segmentation_append_def)
  next
    case False
    then have "?new = []" by auto
    with False assms(3) rs show ?thesis by (auto simp: Segmentation_append_def)
  qed
qed

lemma extend_run_starts:
  assumes "contiguous_runs (buffer S @ segs)"
    and "distinct (map fst (str_index_ptr S))"
    and "set (str_index_ptr S) = set (run_starts None 0 (buffer S))"
  shows "distinct (map fst (str_index_ptr (Segmentation_extend S segs)))"
    and "set (str_index_ptr (Segmentation_extend S segs))
           = set (run_starts None 0 (buffer (Segmentation_extend S segs)))"
proof -
  let ?prev = "if buffer S = [] then None else Some (str_index (last (buffer S)))"
  let ?new = "run_starts ?prev (length (buffer S)) segs"
  have rs: "run_starts None 0 (buffer S @ segs) = run_starts None 0 (buffer S) @ ?new"
    by (simp add: run_starts_append)
  have keys: "map fst (str_index_ptr S) = map fst (str_index_ptr S)" ..
  have d_all: "distinct (map fst (run_starts None 0 (buffer S) @ ?new))"
    using assms(1) unfolding contiguous_runs_def rs .
  then have d_new: "distinct (map fst ([] @ ?new))" by simp
  have new_ptrs: "get_str_index_ptr_loop [] (if buffer S = [] then None else Some (last (buffer S)))
                    (length (buffer S)) segs = ?new"
    using dict_update_fresh [OF d_new]
    by (simp add: get_str_index_ptr_loop_run_starts split: if_splits)
  have "fst ` set (str_index_ptr S) = fst ` set (run_starts None 0 (buffer S))"
    using assms(3) by simp
  moreover have "fst ` set (run_starts None 0 (buffer S)) \<inter> fst ` set ?new = {}"
    using d_all by (simp only: map_append distinct_append set_map)
  ultimately have disj: "fst ` set ?new \<inter> fst ` set (str_index_ptr S) = {}"
    by blast
  then have d_merge: "distinct (map fst (?new @ str_index_ptr S))"
    using d_new assms(2) by auto
  have ptr: "str_index_ptr (Segmentation_extend S segs) = ?new @ str_index_ptr S"
  proof (cases "buffer S = []")
    case True
    with assms(3) have "str_index_ptr S = []" by simp
    with True new_ptrs show ?thesis
      by (simp add: Segmentation_extend_def get_str_index_ptr_def)
  next
    case False
    with new_ptrs dict_update_fresh [OF d_merge] show ?thesis
      by (simp add: Segmentation_extend_def get_str_index_ptr_def)
  qed
  show "distinct (map fst (str_index_ptr (Segmentation_extend S segs)))"
    unfolding ptr by (rule d_merge)
  show "set (str_index_ptr (Segmentation_extend S segs))
           = set (run_starts None 0 (buffer (Segmentation_extend S segs)))"
    unfolding ptr using assms(3) rs by (auto simp: Segmentation_extend_def)
qed

lemma contiguous_runs_prefix: "contiguous_runs (xs @ ys) \<Longrightarrow> contiguous_runs xs"
  by (simp add: contiguous_runs_def run_starts_append)

lemma buffer_Segmentation_extend [simp]:
  "buffer (Segmentation_extend S segs) = buffer S @ segs"
  by (simp add: Segmentation_extend_def)

lemma length_takeWhile_less:
  "\<exists>x \<in> set xs. \<not> P x \<Longrightarrow> length (takeWhile P xs) < length xs"
  by (induction xs) auto

lemma buffer_apply_operation:
  "buffer (apply_operation S op)
     = buffer S @ (case op of Append seg \<Rightarrow> [seg] | Extend segs \<Rightarrow> segs)"
  by (cases op) (simp_all add: Segmentation_append_def Segmentation_extend_def)

lemma apply_operation_run_starts:
  assumes "contiguous_runs (buffer (apply_operation S op))"
    and "distinct (map fst (str_index_ptr S))"
    and "set (str_index_ptr S) = set (run_starts None 0 (buffer S))"
  shows "distinct (map fst (str_index_ptr (apply_operation S op)))
         \<and> set (str_index_ptr (apply_operation S op))
             = set (run_starts None 0 (buffer (apply_operation S op)))"
proof (cases op)
  case (Append seg)
  with assms(1) have "contiguous_runs (buffer S @ [seg])" by simp
  from append_run_starts [OF this assms(2,3)] Append show ?thesis by simp
next
  case (Extend segs)
  with assms(1) have "contiguous_runs (buffer S @ segs)" by simp
  from extend_run_starts [OF this assms(2,3)] Extend show ?thesis by simp
qed

lemma foldl_apply_operation_run_starts:
  assumes "contiguous_runs (buffer (foldl apply_operation S ops))"
    and "distinct (map fst (str_index_ptr S))"
    and "set (str_index_ptr S) = set (run_starts None 0 (buffer S))"
  shows "distinct (map fst (str_index_ptr (foldl apply_operation S ops)))
         \<and> set (str_index_ptr (foldl apply_operation S ops))
             = set (run_starts None 0 (buffer (foldl apply_operation S ops)))"
  using assms
proof (induction ops arbitrary: S)
  case Nil
  then show ?case by simp
next
  case (Cons op ops)
  have "\<exists>rest. buffer (foldl apply_operation T ops) = buffer T @ rest" for T
  proof (induction ops arbitrary: T)
    case Nil
    show ?case by simp
  next
    case (Cons o1 os)
    from Cons [of "apply_operation T o1"] show ?case
      by (auto simp: buffer_apply_operation)
  qed
  then obtain rest where
    "buffer (foldl apply_operation (apply_operation S op) ops) = buffer (apply_operation S op) @ rest"
    by blast
  with Cons.prems(1) have "contiguous_runs (buffer (apply_operation S op))"
    by (simp add: contiguous_runs_prefix)
  from apply_operation_run_starts [OF this Cons.prems(2,3)] Cons.IH [of "apply_operation S op"]
    Cons.prems(1)
  show ?case by simp
qed

lemma build_run_starts:
  assumes "contiguous_runs (buffer (build l ops))"
  shows "distinct (map fst (str_index_ptr (build l ops)))"
    and "set (str_index_ptr (build l ops)) = set (run_starts None 0 (buffer (build l ops)))"
  using foldl_apply_operation_run_starts [of "Segmentation_empty l" ops] assms
  by (simp_all add: build_def Segmentation_empty_def)

lemma first_position_run_start:
  assumes "i \<in> str_index ` set segs"
  shows "(i, first_position i segs) \<in> set (run_starts None 0 segs)"
proof -
  let ?p = "first_position i segs"
  let ?tw = "takeWhile (\<lambda>s. str_index s \<noteq> i) segs"
  from assms have ex: "\<exists>s \<in> set segs. \<not> str_index s \<noteq> i" by auto
  then have lt: "?p < length segs"
    unfolding first_position_def by (rule length_takeWhile_less)
  have at: "str_index (segs ! ?p) = i"
    using nth_length_takeWhile [OF lt [unfolded first_position_def]]
    by (simp add: first_position_def)
  have before: "str_index (segs ! j) \<noteq> i" if "j < ?p" for j
  proof -
    from that have "?tw ! j \<in> set ?tw" by (simp add: first_position_def)
    then have "str_index (?tw ! j) \<noteq> i" by (rule set_takeWhileD [THEN conjunct2])
    with that show ?thesis by (simp add: first_position_def takeWhile_nth)
  qed
  have "?p = 0 \<or> str_index (segs ! (?p - 1)) \<noteq> i"
    using before [of "?p - 1"] by (cases ?p) simp_all
  with lt at show ?thesis
    unfolding run_starts_iff by (intro exI [of _ ?p]) auto
qed

text \<open>
  C5, as amended. When the segmentation that a sequence of \<^verbatim>\<open>append\<close> and \<^verbatim>\<open>extend\<close> calls
  has built keeps the segments of every \<^verbatim>\<open>str_index\<close> contiguous, \<^verbatim>\<open>str_index_ptr\<close> maps
  every \<^verbatim>\<open>str_index\<close> that occurs to the position of the first segment bearing it.
\<close>

theorem str_index_ptr_first_position:
  assumes "contiguous_runs (buffer (build l ops))"
  shows "\<forall>i \<in> str_index ` set (buffer (build l ops)).
           map_of (str_index_ptr (build l ops)) i
             = Some (first_position i (buffer (build l ops)))"
proof
  fix i assume "i \<in> str_index ` set (buffer (build l ops))"
  from first_position_run_start [OF this] build_run_starts [OF assms]
  show "map_of (str_index_ptr (build l ops)) i = Some (first_position i (buffer (build l ops)))"
    by simp
qed

text \<open>
  Two segments of string 0 added by \<^verbatim>\<open>extend\<close>, one of string 1 by \<^verbatim>\<open>append\<close>, then one of
  string 1 and one of string 2 by \<^verbatim>\<open>extend\<close>: the pointers are 0, 2 and 4.
\<close>

theorem str_index_ptr_first_position_witness:
  "contiguous_runs (buffer (build ''s''
       [Extend [\<lparr>str_index = 0, start = Some 0, end' = Some 1, annotations = []\<rparr>,
                \<lparr>str_index = 0, start = Some 1, end' = Some 2, annotations = []\<rparr>],
        Append \<lparr>str_index = 1, start = Some 0, end' = Some 1, annotations = []\<rparr>,
        Extend [\<lparr>str_index = 1, start = Some 1, end' = Some 2, annotations = []\<rparr>,
                \<lparr>str_index = 2, start = Some 0, end' = Some 1, annotations = []\<rparr>]]))
   \<and> map (map_of (str_index_ptr (build ''s''
       [Extend [\<lparr>str_index = 0, start = Some 0, end' = Some 1, annotations = []\<rparr>,
                \<lparr>str_index = 0, start = Some 1, end' = Some 2, annotations = []\<rparr>],
        Append \<lparr>str_index = 1, start = Some 0, end' = Some 1, annotations = []\<rparr>,
        Extend [\<lparr>str_index = 1, start = Some 1, end' = Some 2, annotations = []\<rparr>,
                \<lparr>str_index = 2, start = Some 0, end' = Some 1, annotations = []\<rparr>]]))) [0, 1, 2]
     = [Some 0, Some 2, Some 4]"
proof -
  let ?S = "build ''s''
       [Extend [\<lparr>str_index = 0, start = Some 0, end' = Some 1, annotations = []\<rparr>,
                \<lparr>str_index = 0, start = Some 1, end' = Some 2, annotations = []\<rparr>],
        Append \<lparr>str_index = 1, start = Some 0, end' = Some 1, annotations = []\<rparr>,
        Extend [\<lparr>str_index = 1, start = Some 1, end' = Some 2, annotations = []\<rparr>,
                \<lparr>str_index = 2, start = Some 0, end' = Some 1, annotations = []\<rparr>]]"
  have buf: "buffer ?S =
       [\<lparr>str_index = 0, start = Some 0, end' = Some 1, annotations = []\<rparr>,
        \<lparr>str_index = 0, start = Some 1, end' = Some 2, annotations = []\<rparr>,
        \<lparr>str_index = 1, start = Some 0, end' = Some 1, annotations = []\<rparr>,
        \<lparr>str_index = 1, start = Some 1, end' = Some 2, annotations = []\<rparr>,
        \<lparr>str_index = 2, start = Some 0, end' = Some 1, annotations = []\<rparr>]"
    by (simp add: build_def Segmentation_empty_def)
  have c: "contiguous_runs (buffer ?S)"
    unfolding buf by (simp add: contiguous_runs_def)
  from str_index_ptr_first_position [OF c] c show ?thesis
    unfolding buf by (simp add: first_position_def)
qed

text \<open>
  The claim as stated fails when a \<^verbatim>\<open>str_index\<close> recurs: after appending segments of the
  strings 0, 1 and 0, the pointer of string 0 is 2, and the first segment of string 0 is
  at position 0.
\<close>

theorem str_index_ptr_second_run_counterexample:
  "map_of (str_index_ptr (build ''s''
       [Append \<lparr>str_index = 0, start = Some 0, end' = Some 1, annotations = []\<rparr>,
        Append \<lparr>str_index = 1, start = Some 0, end' = Some 1, annotations = []\<rparr>,
        Append \<lparr>str_index = 0, start = Some 1, end' = Some 2, annotations = []\<rparr>])) 0 = Some 2
   \<and> first_position 0 (buffer (build ''s''
       [Append \<lparr>str_index = 0, start = Some 0, end' = Some 1, annotations = []\<rparr>,
        Append \<lparr>str_index = 1, start = Some 0, end' = Some 1, annotations = []\<rparr>,
        Append \<lparr>str_index = 0, start = Some 1, end' = Some 2, annotations = []\<rparr>])) = 0"
  by (simp add: build_def Segmentation_append_def Segmentation_empty_def first_position_def)

section \<open>Sparse matrices\<close>

lemma map_of_dok_of_array:
  "map_of (items (dok_of_array a)) (i, j)
     = (if i < nrows a \<and> j < ncols a \<and> elem a i j \<noteq> 0 then Some (elem a i j) else None)"
proof -
  have "map_of (concat (map (\<lambda>j. if elem a i' j \<noteq> 0 then [((i', j), elem a i' j)] else []) js)) (i, j)
      = (if i = i' \<and> j \<in> set js \<and> elem a i j \<noteq> 0 then Some (elem a i j) else None)" for i' js
    by (induction js) auto
  then have "map_of (concat (map (\<lambda>i'. concat (map (\<lambda>j. if elem a i' j \<noteq> 0
                  then [((i', j), elem a i' j)] else []) [0..<ncols a])) is)) (i, j)
      = (if i \<in> set is \<and> j < ncols a \<and> elem a i j \<noteq> 0 then Some (elem a i j) else None)" for "is"
    by (induction "is") (auto simp: map_add_def)
  from this [of "[0..<nrows a]"] show ?thesis by (simp add: dok_of_array_def)
qed


section \<open>The association matrix and its missing sentinel\<close>





section \<open>Round trip through the weighted flat format\<close>

lemma enum_mapping_distinct:
  assumes "distinct xs"
  shows "enum_mapping xs x = Some i \<longleftrightarrow> i < length xs \<and> xs ! i = x"
proof -
  let ?zs = "zip xs [0..<length xs]"
  have d: "distinct (map fst ?zs)" using assms by simp
  then have "distinct (map fst (rev ?zs))" by (simp add: rev_map [symmetric])
  then have "map_of (rev ?zs) x = Some i \<longleftrightarrow> (x, i) \<in> set ?zs" by simp
  also have "\<dots> \<longleftrightarrow> i < length xs \<and> xs ! i = x" by (auto simp: in_set_zip)
  finally show ?thesis by (simp add: enum_mapping_def)
qed

lemma enum_mapping_None: "enum_mapping xs x = None \<longleftrightarrow> x \<notin> set xs"
proof -
  have "set (map fst (zip xs [0..<length xs])) = set xs" by (simp del: set_map)
  then have "fst ` set (zip xs [0..<length xs]) = set xs" by (simp only: set_map)
  then show ?thesis by (simp add: enum_mapping_def map_of_eq_None_iff)
qed

lemma np_unique_props [simp]: "distinct (np_unique xs)" "set (np_unique xs) = set xs"
  by (simp_all add: np_unique_def)

lemma those_map_Some: "those (map Some xs) = Some xs"
  by (induction xs) simp_all

lemma stored_nonzero:
  assumes "\<forall>kv \<in> set (items (cells T)). snd kv \<noteq> 0" "stored T r c = Some v"
  shows "v \<noteq> 0"
proof -
  from assms(2) obtain i j where "map_of (items (cells T)) (i, j) = Some v"
    by (auto simp: stored_def split: option.splits)
  then have "((i, j), v) \<in> set (items (cells T))" by (rule map_of_SomeD)
  with assms(1) show ?thesis by force
qed

lemma Table_get_stored:
  assumes "\<forall>kv \<in> set (items (cells T)). in_shape (cells T) (fst kv)"
  shows "Table_get T r c m =
           (case stored T r c of
              Some v \<Rightarrow> Some v
            | None \<Rightarrow> (case m of None \<Rightarrow> missing T | Some x \<Rightarrow> Some x))"
proof -
  have "in_shape (cells T) key" if "map_of (items (cells T)) key = Some v" for key v
    using map_of_SomeD [OF that] assms by force
  then show ?thesis
    by (auto simp: Table_get_def dok_get_def stored_def Let_def split: option.splits)
qed

lemma fill_weighted_result:
  assumes "\<forall>kv \<in> set (items (cells T)). snd kv \<noteq> 0 \<and> in_shape (cells T) (fst kv)"
    and "k + length (filter (\<lambda>(r, c). stored T r c \<noteq> None) ps) \<le> length vals"
  shows "fill_weighted T ps k vals =
           Inr (take k vals
                @ map (\<lambda>(r, c). Some (c, r, the (stored T r c)))
                    (filter (\<lambda>(r, c). stored T r c \<noteq> None) ps)
                @ drop (k + length (filter (\<lambda>(r, c). stored T r c \<noteq> None) ps)) vals)"
  using assms(2)
proof (induction ps arbitrary: k vals)
  case Nil
  show ?case by simp
next
  case (Cons p ps)
  obtain r c where p: "p = (r, c)" by (cases p)
  have shape: "\<forall>kv \<in> set (items (cells T)). in_shape (cells T) (fst kv)" using assms(1) by blast
  show ?case
  proof (cases "stored T r c")
    case None
    then have "Table_get T r c (Some 0) = Some 0" by (simp add: Table_get_stored [OF shape])
    with None Cons p show ?thesis by simp
  next
    case (Some v)
    then have v: "v \<noteq> 0" using stored_nonzero [of T r c v] assms(1) by blast
    have get: "Table_get T r c (Some 0) = Some v" using Some by (simp add: Table_get_stored [OF shape])
    from Cons.prems Some p have k: "k < length vals"
      and le: "Suc k + length (filter (\<lambda>(r, c). stored T r c \<noteq> None) ps) \<le> length vals"
      by simp_all
    let ?vals = "vals[k := Some (c, r, v)]"
    from le have "Suc k + length (filter (\<lambda>(r, c). stored T r c \<noteq> None) ps) \<le> length ?vals" by simp
    from Cons.IH [OF this] have
      "fill_weighted T ps (Suc k) ?vals =
         Inr (take (Suc k) ?vals
              @ map (\<lambda>(r, c). Some (c, r, the (stored T r c)))
                  (filter (\<lambda>(r, c). stored T r c \<noteq> None) ps)
              @ drop (Suc k + length (filter (\<lambda>(r, c). stored T r c \<noteq> None) ps)) ?vals)" .
    moreover have "take (Suc k) ?vals = take k vals @ [Some (c, r, v)]"
      using k by (simp add: take_Suc_conv_app_nth)
    moreover have "drop (Suc k + n) ?vals = drop (Suc k + n) vals" for n by simp
    ultimately show ?thesis using get v k Some p by simp
  qed
qed

lemma stored_count:
  assumes "pivot_ok T"
  shows "length (filter (\<lambda>(r, c). stored T r c \<noteq> None) (List.product (row_ids T) (col_ids T)))
           = length (items (cells T))"
proof -
  let ?nz = "filter (\<lambda>(r, c). stored T r c \<noteq> None) (List.product (row_ids T) (col_ids T))"
  let ?f = "\<lambda>(r, c). (the (row_mapping T r), the (col_mapping T c))"
  from assms have dr: "distinct (row_ids T)" and dc: "distinct (col_ids T)"
    and ir: "inj_on (row_mapping T) (set (row_ids T))"
    and ic: "inj_on (col_mapping T) (set (col_ids T))"
    and di: "distinct (map fst (items (cells T)))"
    and cover: "\<forall>kv \<in> set (items (cells T)).
        (\<exists>r \<in> set (row_ids T). row_mapping T r = Some (fst (fst kv))) \<and>
        (\<exists>c \<in> set (col_ids T). col_mapping T c = Some (snd (fst kv)))"
    by (simp_all add: pivot_ok_def)
  have dnz: "distinct ?nz" using dr dc by (simp add: distinct_product)
  have inj: "inj_on ?f (set ?nz)"
  proof (rule inj_onI)
    fix p q assume p: "p \<in> set ?nz" and q: "q \<in> set ?nz" and eq: "?f p = ?f q"
    obtain r c where pr: "p = (r, c)" by (cases p)
    obtain r' c' where qr: "q = (r', c')" by (cases q)
    from p pr obtain i j where 1: "row_mapping T r = Some i" "col_mapping T c = Some j"
      by (auto simp: stored_def split: option.splits)
    from q qr obtain i' j' where 2: "row_mapping T r' = Some i'" "col_mapping T c' = Some j'"
      by (auto simp: stored_def split: option.splits)
    from eq pr qr 1 2 have "row_mapping T r = row_mapping T r'" "col_mapping T c = col_mapping T c'"
      by simp_all
    moreover from p q pr qr have "r \<in> set (row_ids T)" "r' \<in> set (row_ids T)"
      "c \<in> set (col_ids T)" "c' \<in> set (col_ids T)" by simp_all
    ultimately have "r = r'" "c = c'" using ir ic by (auto dest: inj_onD)
    with pr qr show "p = q" by simp
  qed
  have "set (map ?f ?nz) = set (map fst (items (cells T)))"
  proof (intro set_eqI iffI)
    fix key assume "key \<in> set (map ?f ?nz)"
    then obtain r c where rc: "stored T r c \<noteq> None" "key = ?f (r, c)" by auto
    then obtain i j v where "row_mapping T r = Some i" "col_mapping T c = Some j"
      "map_of (items (cells T)) (i, j) = Some v"
      by (auto simp: stored_def split: option.splits)
    with rc(2) map_of_SomeD [of "items (cells T)" "(i, j)" v]
    show "key \<in> set (map fst (items (cells T)))" by force
  next
    fix key assume "key \<in> set (map fst (items (cells T)))"
    then obtain i j v where kv: "((i, j), v) \<in> set (items (cells T))" "key = (i, j)" by auto
    with cover obtain r c where rc: "r \<in> set (row_ids T)" "row_mapping T r = Some i"
      "c \<in> set (col_ids T)" "col_mapping T c = Some j" by force
    from kv(1) di have "map_of (items (cells T)) (i, j) = Some v" by simp
    with rc have "stored T r c = Some v" by (simp add: stored_def)
    with rc have "(r, c) \<in> set ?nz" by simp
    moreover have "?f (r, c) = key" using rc kv(2) by simp
    ultimately show "key \<in> set (map ?f ?nz)" by force
  qed
  moreover have "distinct (map ?f ?nz)" using dnz inj by (simp add: distinct_map)
  ultimately have "length (map ?f ?nz) = length (map fst (items (cells T)))"
    using di by (metis distinct_card)
  then show ?thesis by simp
qed

lemma pivot_loop_fresh:
  assumes "\<forall>(c, r, v) \<in> set rows.
             conv v \<noteq> 0 \<and> (\<exists>i j. rm r = Some i \<and> cm c = Some j \<and> i < n \<and> j < m)"
    and "distinct (map fst acc @ map (\<lambda>(c, r, v). (the (rm r), the (cm c))) rows)"
  shows "pivot_loop conv rm cm rows \<lparr>shape = (n, m), items = acc\<rparr>
           = Inr \<lparr>shape = (n, m),
                  items = acc @ map (\<lambda>(c, r, v). ((the (rm r), the (cm c)), conv v)) rows\<rparr>"
  using assms
proof (induction rows arbitrary: acc)
  case Nil
  show ?case by simp
next
  case (Cons row rows)
  obtain c r v where row: "row = (c, r, v)" by (cases row)
  from Cons.prems(1) row obtain i j where ij: "rm r = Some i" "cm c = Some j" "i < n" "j < m"
    and v: "conv v \<noteq> 0" by auto
  from Cons.prems(2) row ij have fresh: "(i, j) \<notin> fst ` set acc" by auto
  have set: "dok_setitem \<lparr>shape = (n, m), items = acc\<rparr> (i, j) (conv v)
      = Inr \<lparr>shape = (n, m), items = acc @ [((i, j), conv v)]\<rparr>"
    using ij v fresh by (simp add: dok_setitem_def in_shape_def update_fresh)
  have rest: "\<forall>(c, r, v) \<in> set rows.
      conv v \<noteq> 0 \<and> (\<exists>i j. rm r = Some i \<and> cm c = Some j \<and> i < n \<and> j < m)"
    using Cons.prems(1) by simp
  have "distinct (map fst (acc @ [((i, j), conv v)])
      @ map (\<lambda>(c, r, v). (the (rm r), the (cm c))) rows)"
    using Cons.prems(2) row ij by simp
  from Cons.IH [OF rest this] set ij row show ?case by simp
qed

lemma astype_float64_of_int:
  assumes "\<bar>v\<bar> \<le> 2 ^ 53"
  shows "float64_of_int v = Finite (of_int v)" and "astype_int (float64_of_int v) = v"
proof -
  show f: "float64_of_int v = Finite (of_int v)"
    unfolding float64_of_int_def by (rule fl_of_int [OF assms])
  have "- (2 ^ 63) \<le> v \<and> v < 2 ^ 63" using assms by (simp add: abs_le_iff)
  then show "astype_int (float64_of_int v) = v"
    by (simp add: f astype_int_def Let_def)
qed

text \<open>
  C3, as amended. For a well-formed integer pivot crosstab \<open>T\<close> whose cells are at most
  \<open>2\<^sup>5\<^sup>3\<close> in absolute value, both conversions succeed, every pair of a row id and a
  column id of \<open>T\<close> gets the same answer from \<^verbatim>\<open>get\<close> in the round-tripped table as in \<open>T\<close>
  (whatever the \<^verbatim>\<open>missing\<close> argument), and every value stored in the round-tripped table is
  a nonzero value of \<open>T\<close> at the same pair of ids.
\<close>

theorem weighted_flat_round_trip:
  fixes T :: "('r::linorder, 'c::linorder, int) pivot"
  assumes "pivot_ok T" and small: "\<forall>kv \<in> set (items (cells T)). \<bar>snd kv\<bar> \<le> 2 ^ 53"
  shows "\<exists>W P. to_weighted_flat T = Inr W \<and> IntWeightedFlatCrosstab_to_pivot W = Inr P \<and>
           (\<forall>r \<in> set (row_ids T). \<forall>c \<in> set (col_ids T). \<forall>m.
              Table_get P r c m = Table_get T r c m) \<and>
           (\<forall>kv \<in> set (items (cells P)).
              snd kv \<noteq> 0 \<and>
              (\<exists>r \<in> set (row_ids T). \<exists>c \<in> set (col_ids T).
                 row_mapping P r = Some (fst (fst kv)) \<and>
                 col_mapping P c = Some (snd (fst kv)) \<and>
                 Table_get T r c (Some 0) = Some (snd kv)))"
proof -
  let ?pairs = "List.product (row_ids T) (col_ids T)"
  define nz where "nz = filter (\<lambda>(r, c). stored T r c \<noteq> None) ?pairs"
  define rows where "rows = map (\<lambda>(r, c). (c, r, the (stored T r c))) nz"
  define rids where "rids = np_unique (map (fst \<circ> snd) rows)"
  define cids where "cids = np_unique (map fst rows)"
  define key where "key = (\<lambda>(c :: 'c, r :: 'r, v :: int).
      ((the (enum_mapping rids r), the (enum_mapping cids c)), v))"
  have okT: "\<forall>kv \<in> set (items (cells T)). snd kv \<noteq> 0 \<and> in_shape (cells T) (fst kv)"
    and dr: "distinct (row_ids T)" and dc: "distinct (col_ids T)"
    using assms(1) by (simp_all add: pivot_ok_def)
  then have shapeT: "\<forall>kv \<in> set (items (cells T)). in_shape (cells T) (fst kv)"
    and nzT: "\<forall>kv \<in> set (items (cells T)). snd kv \<noteq> 0" by blast+
  have count: "length nz = nnz (cells T)"
    unfolding nz_def nnz_def by (rule stored_count [OF assms(1)])
  \<comment> \<open>the flat table\<close>
  have "fill_weighted T ?pairs 0 (replicate (nnz (cells T)) None) = Inr (map Some rows)"
    using fill_weighted_result [OF okT, of 0 ?pairs "replicate (nnz (cells T)) None"] count
    by (simp add: nz_def rows_def comp_def case_prod_unfold)
  then obtain W where W: "to_weighted_flat T = Inr W" "cells W = map Some rows"
    "missing W = missing T" "2 \<le> length (col_ids W)"
    by (auto simp: to_weighted_flat_def Let_def)
  \<comment> \<open>the ids and the mappings of the new pivot table\<close>
  have in_rows: "(c, r, v) \<in> set rows \<longleftrightarrow>
      r \<in> set (row_ids T) \<and> c \<in> set (col_ids T) \<and> stored T r c = Some v" for c r v
  proof
    assume "(c, r, v) \<in> set rows"
    then show "r \<in> set (row_ids T) \<and> c \<in> set (col_ids T) \<and> stored T r c = Some v"
      by (auto simp: rows_def nz_def)
  next
    assume a: "r \<in> set (row_ids T) \<and> c \<in> set (col_ids T) \<and> stored T r c = Some v"
    then have "(r, c) \<in> set nz" by (simp add: nz_def)
    moreover have "(\<lambda>(r, c). (c, r, the (stored T r c))) (r, c) = (c, r, v)" using a by simp
    ultimately show "(c, r, v) \<in> set rows" unfolding rows_def set_map by force
  qed
  have rm: "enum_mapping rids r = Some i \<longleftrightarrow> i < length rids \<and> rids ! i = r" for r i
    by (rule enum_mapping_distinct) (simp add: rids_def)
  have cm: "enum_mapping cids c = Some j \<longleftrightarrow> j < length cids \<and> cids ! j = c" for c j
    by (rule enum_mapping_distinct) (simp add: cids_def)
  have row_idx: "\<exists>i j. enum_mapping rids r = Some i \<and> enum_mapping cids c = Some j
      \<and> i < length rids \<and> j < length cids" if "(c, r, v) \<in> set rows" for c r v
  proof -
    from that have "r \<in> set rids" "c \<in> set cids" by (force simp: rids_def cids_def)+
    then obtain i j where "i < length rids" "rids ! i = r" "j < length cids" "cids ! j = c"
      by (auto simp: in_set_conv_nth)
    then show ?thesis by (auto simp: rm cm)
  qed
  have dnz: "distinct nz" using dr dc by (simp add: nz_def distinct_product)
  have dkeys: "distinct (map (\<lambda>(c, r, v). (the (enum_mapping rids r), the (enum_mapping cids c))) rows)"
  proof -
    have "inj_on (\<lambda>(r, c). (the (enum_mapping rids r), the (enum_mapping cids c))) (set nz)"
    proof (rule inj_onI)
      fix p q assume p: "p \<in> set nz" and q: "q \<in> set nz"
        and eq: "(\<lambda>(r, c). (the (enum_mapping rids r), the (enum_mapping cids c))) p
               = (\<lambda>(r, c). (the (enum_mapping rids r), the (enum_mapping cids c))) q"
      obtain r c where pr: "p = (r, c)" by (cases p)
      obtain r' c' where qr: "q = (r', c')" by (cases q)
      from p pr have "(c, r, the (stored T r c)) \<in> set rows" by (force simp: rows_def)
      from row_idx [OF this] obtain i j where 1: "enum_mapping rids r = Some i"
        "enum_mapping cids c = Some j" by blast
      from q qr have "(c', r', the (stored T r' c')) \<in> set rows" by (force simp: rows_def)
      from row_idx [OF this] obtain i' j' where 2: "enum_mapping rids r' = Some i'"
        "enum_mapping cids c' = Some j'" by blast
      from eq pr qr 1 2 have "i = i'" "j = j'" by simp_all
      with 1 2 have "r = r'" "c = c'" by (simp_all add: rm cm)
      with pr qr show "p = q" by simp
    qed
    with dnz have "distinct (map (\<lambda>(r, c). (the (enum_mapping rids r), the (enum_mapping cids c))) nz)"
      by (simp add: distinct_map)
    then show ?thesis by (simp add: rows_def comp_def case_prod_unfold)
  qed
  have rows_small: "\<bar>v\<bar> \<le> 2 ^ 53" and rows_nz: "v \<noteq> 0" if "(c, r, v) \<in> set rows" for c r v
  proof -
    from that have st: "stored T r c = Some v" by (simp add: in_rows)
    then show "v \<noteq> 0" by (rule stored_nonzero [OF nzT])
    from st obtain i j where "map_of (items (cells T)) (i, j) = Some v"
      by (auto simp: stored_def split: option.splits)
    then have "((i, j), v) \<in> set (items (cells T))" by (rule map_of_SomeD)
    with small show "\<bar>v\<bar> \<le> 2 ^ 53" by force
  qed
  have rows_ok: "\<forall>(c, r, v) \<in> set rows. float64_of_int v \<noteq> 0 \<and>
      (\<exists>i j. enum_mapping rids r = Some i \<and> enum_mapping cids c = Some j
         \<and> i < length rids \<and> j < length cids)"
  proof (clarify, intro conjI)
    fix c r v assume m: "(c, r, v) \<in> set rows"
    from rows_nz [OF m] astype_float64_of_int(1) [OF rows_small [OF m]]
    show "float64_of_int v \<noteq> 0" by (simp add: zero_float64_def)
    from row_idx [OF m] show "\<exists>i j. enum_mapping rids r = Some i \<and> enum_mapping cids c = Some j
         \<and> i < length rids \<and> j < length cids" .
  qed
  define keyF where "keyF = (\<lambda>(c :: 'c, r :: 'r, v :: int).
      ((the (enum_mapping rids r), the (enum_mapping cids c)), float64_of_int v))"
  have loop: "pivot_loop float64_of_int (enum_mapping rids) (enum_mapping cids) rows
      (dok_matrix (length rids) (length cids))
      = Inr \<lparr>shape = (length rids, length cids), items = map keyF rows\<rparr>"
    using pivot_loop_fresh [OF rows_ok, of "[]"] dkeys by (simp add: dok_matrix_def keyF_def)
  have cast: "map (\<lambda>(k, v). (k, astype_int v)) (map keyF rows) = map key rows"
  proof -
    have "(\<lambda>(k, v). (k, astype_int v)) (keyF row) = key row" if "row \<in> set rows" for row
    proof -
      obtain c r v where row: "row = (c, r, v)" by (cases row)
      with that astype_float64_of_int(2) [OF rows_small] show ?thesis
        by (simp add: keyF_def key_def)
    qed
    then show ?thesis by simp
  qed
  \<comment> \<open>the new pivot table\<close>
  have "py_nth (col_ids W) 0 = Inr (col_ids W ! 0)" "py_nth (col_ids W) 1 = Inr (col_ids W ! 1)"
    using W(4) by (auto simp add: py_nth_def Let_def)
  then obtain h0 h1 where heads: "py_nth (col_ids W) 0 = Inr h0" "py_nth (col_ids W) 1 = Inr h1"
    by blast
  define P where "P = \<lparr>row_ids = rids, col_ids = cids,
      cells = \<lparr>shape = (length rids, length cids), items = map key rows\<rparr>,
      header_row_id = h0, header_row_type = ''discrete'',
      header_col_id = h1, header_col_type = ''discrete'',
      col_type = const_dict cids ''continuous'',
      class_col_id = None, missing = missing W, cached_row_id = None,
      row_mapping = enum_mapping rids, col_mapping = enum_mapping cids\<rparr>"
  have P: "IntWeightedFlatCrosstab_to_pivot W = Inr P"
    using heads loop W(2) cast
    by (simp add: IntWeightedFlatCrosstab_to_pivot_def to_pivot_def those_map_Some Let_def P_def
        rids_def [symmetric] cids_def [symmetric])
  have ditems: "distinct (map fst (items (cells P)))"
    using dkeys by (simp add: P_def key_def comp_def case_prod_unfold)
  have shapeP: "\<forall>kv \<in> set (items (cells P)). in_shape (cells P) (fst kv)"
  proof
    fix kv assume "kv \<in> set (items (cells P))"
    then obtain c r v where m: "(c, r, v) \<in> set rows" and kv: "kv = key (c, r, v)"
      by (auto simp: P_def)
    from row_idx [OF m] kv show "in_shape (cells P) (fst kv)"
      by (auto simp: key_def in_shape_def P_def)
  qed
  have item: "((i, j), v) \<in> set (items (cells P)) \<longleftrightarrow>
      (\<exists>c r. (c, r, v) \<in> set rows \<and> enum_mapping rids r = Some i \<and> enum_mapping cids c = Some j)"
    for i j v
  proof
    assume "((i, j), v) \<in> set (items (cells P))"
    then obtain c r v' where m: "(c, r, v') \<in> set rows" and kv: "((i, j), v) = key (c, r, v')"
      by (auto simp: P_def)
    from row_idx [OF m] obtain i' j' where
      ij: "enum_mapping rids r = Some i'" "enum_mapping cids c = Some j'" by blast
    with kv have "i = i'" "j = j'" "v = v'" by (simp_all add: key_def)
    with m ij
    show "\<exists>c r. (c, r, v) \<in> set rows \<and> enum_mapping rids r = Some i \<and> enum_mapping cids c = Some j"
      by blast
  next
    assume "\<exists>c r. (c, r, v) \<in> set rows \<and> enum_mapping rids r = Some i \<and> enum_mapping cids c = Some j"
    then obtain c r where m: "(c, r, v) \<in> set rows" "enum_mapping rids r = Some i"
      "enum_mapping cids c = Some j" by blast
    then have "key (c, r, v) = ((i, j), v)" by (simp add: key_def)
    with m(1) show "((i, j), v) \<in> set (items (cells P))" by (force simp: P_def)
  qed
  have stored_P: "stored P r c = Some v \<longleftrightarrow> (c, r, v) \<in> set rows" for r c v
  proof
    assume "stored P r c = Some v"
    then obtain i j where ij: "enum_mapping rids r = Some i" "enum_mapping cids c = Some j"
      "map_of (items (cells P)) (i, j) = Some v"
      by (auto simp: stored_def P_def split: option.splits)
    from map_of_SomeD [OF ij(3)] item obtain c' r' where
      m: "(c', r', v) \<in> set rows" "enum_mapping rids r' = Some i" "enum_mapping cids c' = Some j"
      by blast
    with ij have "r' = r" "c' = c" by (simp_all add: rm cm)
    with m(1) show "(c, r, v) \<in> set rows" by simp
  next
    assume m: "(c, r, v) \<in> set rows"
    from row_idx [OF m] obtain i j where ij: "enum_mapping rids r = Some i"
      "enum_mapping cids c = Some j" by blast
    with m item have "((i, j), v) \<in> set (items (cells P))" by blast
    with ditems have "map_of (items (cells P)) (i, j) = Some v" by simp
    with ij show "stored P r c = Some v" by (simp add: stored_def P_def)
  qed
  have same: "stored P r c = stored T r c" if "r \<in> set (row_ids T)" "c \<in> set (col_ids T)" for r c
  proof (cases "stored T r c")
    case None
    with stored_P [of r c] in_rows [of c r] show ?thesis by (cases "stored P r c") auto
  next
    case (Some v)
    with that stored_P [of r c v] in_rows [of c r v] show ?thesis by simp
  qed
  have get: "\<forall>r \<in> set (row_ids T). \<forall>c \<in> set (col_ids T). \<forall>m.
      Table_get P r c m = Table_get T r c m"
  proof -
    have mp: "missing P = missing T" using W(3) by (simp add: P_def)
    from same show ?thesis
      by (simp add: Table_get_stored [OF shapeP] Table_get_stored [OF shapeT] mp
          split: option.splits)
  qed
  have only: "\<forall>kv \<in> set (items (cells P)).
      snd kv \<noteq> 0 \<and>
      (\<exists>r \<in> set (row_ids T). \<exists>c \<in> set (col_ids T).
         row_mapping P r = Some (fst (fst kv)) \<and> col_mapping P c = Some (snd (fst kv)) \<and>
         Table_get T r c (Some 0) = Some (snd kv))"
  proof
    fix kv assume kv: "kv \<in> set (items (cells P))"
    obtain i j v where kvd: "kv = ((i, j), v)" by (metis prod.collapse)
    with kv item obtain c r where m: "(c, r, v) \<in> set rows" "enum_mapping rids r = Some i"
      "enum_mapping cids c = Some j" by blast
    from m(1) have T: "r \<in> set (row_ids T)" "c \<in> set (col_ids T)" "stored T r c = Some v"
      by (simp_all add: in_rows)
    then have "v \<noteq> 0" using stored_nonzero [OF nzT] by blast
    moreover have "Table_get T r c (Some 0) = Some v"
      using T(3) by (simp add: Table_get_stored [OF shapeT])
    ultimately show "snd kv \<noteq> 0 \<and>
      (\<exists>r \<in> set (row_ids T). \<exists>c \<in> set (col_ids T).
         row_mapping P r = Some (fst (fst kv)) \<and> col_mapping P c = Some (snd (fst kv)) \<and>
         Table_get T r c (Some 0) = Some (snd kv))"
      using T(1,2) m(2,3) kvd by (auto simp: P_def)
  qed
  from W(1) P get only show ?thesis by blast
qed

text \<open>The round trip of the two-by-two crosstab answers 2, 0 and 3 as the crosstab does.\<close>

theorem weighted_flat_round_trip_witness:
  "\<exists>W P. to_weighted_flat two_by_two = Inr W \<and> IntWeightedFlatCrosstab_to_pivot W = Inr P \<and>
          Table_get P ''b'' ''x'' None = Some 2 \<and>
          Table_get P ''b'' ''y'' None = Some 0 \<and>
          Table_get P ''a'' ''y'' None = Some 3"
proof -
  have upt2: "[0..<2] = [0, 1]"
    by (simp add: upt_rec [of 0] upt_rec [of "Suc _"] eval_nat_numeral)
  have ok: "pivot_ok two_by_two"
    by (simp add: pivot_ok_def two_by_two_def enum_mapping_def in_shape_def upt2)
  have small: "\<forall>kv \<in> set (items (cells two_by_two)). \<bar>snd kv\<bar> \<le> 2 ^ 53"
    by (simp add: two_by_two_def)
  have get: "Table_get two_by_two ''b'' ''x'' None = Some 2"
    "Table_get two_by_two ''b'' ''y'' None = Some 0"
    "Table_get two_by_two ''a'' ''y'' None = Some 3"
    by (simp_all add: Table_get_def dok_get_def two_by_two_def enum_mapping_def in_shape_def upt2)
  from weighted_flat_round_trip [OF ok small] obtain W P where
    "to_weighted_flat two_by_two = Inr W" "IntWeightedFlatCrosstab_to_pivot W = Inr P"
    and same: "\<forall>r \<in> set (row_ids two_by_two). \<forall>c \<in> set (col_ids two_by_two). \<forall>m.
      Table_get P r c m = Table_get two_by_two r c m"
    by blast
  moreover have "Table_get P ''b'' ''x'' None = Some 2" "Table_get P ''b'' ''y'' None = Some 0"
    "Table_get P ''a'' ''y'' None = Some 3"
    using same get by (simp_all add: two_by_two_def)
  ultimately show ?thesis by blast
qed

text \<open>
  The claim as stated fails for a count above \<open>2\<^sup>5\<^sup>3\<close>: the cell \<open>2\<^sup>5\<^sup>3 + 1\<close> comes back from
  the floating-point matrix as \<open>2\<^sup>5\<^sup>3\<close>.
\<close>

theorem weighted_flat_round_trip_counterexample:
  "Table_get big_count ''b'' ''x'' None = Some (2 ^ 53 + 1)
   \<and> map_sum id (\<lambda>P. Table_get P ''b'' ''x'' None)
        (case to_weighted_flat big_count of
           Inl e \<Rightarrow> Inl e
         | Inr W \<Rightarrow> IntWeightedFlatCrosstab_to_pivot W)
      = Inr (Some (2 ^ 53))"
  by code_simp

section \<open>Co-occurrence in a sliding window\<close>

lemma map_of_dict_update:
  "distinct (map fst other) \<Longrightarrow>
     map_of (dict_update d other) k = (case map_of other k of None \<Rightarrow> map_of d k | Some v \<Rightarrow> Some v)"
proof (induction other arbitrary: d)
  case Nil
  show ?case by (simp add: dict_update_def)
next
  case (Cons kv other)
  obtain k' v' where kv: "kv = (k', v')" by (cases kv)
  from Cons.prems kv have fresh: "map_of other k' = None" and d: "distinct (map fst other)"
    by (simp_all add: map_of_eq_None_iff)
  have "dict_update d (kv # other) = dict_update (AList.update k' v' d) other"
    by (simp add: dict_update_def kv)
  with Cons.IH [OF d, of "AList.update k' v' d"] fresh kv show ?case
    by (auto simp add: update_conv' split: option.splits)
qed

lemma distinct_dict_update:
  "distinct (map fst d) \<Longrightarrow> distinct (map fst (dict_update d other))"
proof (induction other arbitrary: d)
  case Nil
  then show ?case by (simp add: dict_update_def)
next
  case (Cons kv other)
  obtain k v where kv: "kv = (k, v)" by (cases kv)
  have "dict_update d (kv # other) = dict_update (AList.update k v d) other"
    by (simp add: dict_update_def kv)
  with Cons.IH [of "AList.update k v d"] Cons.prems show ?case
    by (simp add: distinct_update)
qed

lemma window_items_eq:
  assumes "distinct (map fst fr)"
  shows "window_items r fr = map (\<lambda>(k, v). ((r, k), v)) fr"
proof -
  have "map fst (map (\<lambda>(k, v). ((r, k), v)) fr) = map (Pair r) (map fst fr)"
    by (simp add: case_prod_unfold)
  then have "distinct (map fst ([] @ map (\<lambda>(k, v). ((r, k), v)) fr))"
    using assms by (simp add: distinct_map inj_on_def)
  from dict_update_fresh [OF this] show ?thesis by (simp add: window_items_def)
qed

lemma map_of_window_row:
  "map_of (map (\<lambda>(k, v). ((r, k), v)) fr) (r', u) = (if r' = r then map_of fr u else None)"
  by (induction fr) auto

lemma fold_window_freq_add:
  "map_of (fold (\<lambda>u fr. window_freq_add fr u) xs fr0) u
     = (if u \<in> set xs
        then Some ((case map_of fr0 u of None \<Rightarrow> 0 | Some n \<Rightarrow> n) + int (count_list xs u))
        else map_of fr0 u)
   \<and> (distinct (map fst fr0) \<longrightarrow> distinct (map fst (fold (\<lambda>u fr. window_freq_add fr u) xs fr0)))"
proof (induction xs arbitrary: fr0)
  case Nil
  show ?case by simp
next
  case (Cons x xs)
  show ?case
    using Cons.IH [of "window_freq_add fr0 x"]
    by (auto simp add: window_freq_add_def update_conv' distinct_update split: option.splits)
qed

lemma window_slide:
  assumes "1 \<le> w" "w + W \<le> length ul" "1 \<le> W"
  shows "int (count_list (take W (drop w ul)) u)
           = int (count_list (take W (drop (w - 1) ul)) u)
             - (if ul ! (w - 1) = u then 1 else 0)
             + (if ul ! (w + W - 1) = u then 1 else 0)"
    and "set (take (w + W) ul) = insert (ul ! (w + W - 1)) (set (take (w - 1 + W) ul))"
    and "ul ! (w - 1) \<in> set (take (w - 1 + W) ul)"
    and "set (take W (drop (w - 1) ul)) \<subseteq> set (take (w - 1 + W) ul)"
proof -
  obtain w' where w': "w = Suc w'" using assms(1) by (cases w) simp_all
  obtain W' where W': "W = Suc W'" using assms(3) by (cases W) simp_all
  have lt: "w' < length ul" "W' < length (drop w ul)" using assms w' W' by simp_all
  have d: "drop w' ul = ul ! w' # drop w ul"
    using lt(1) by (simp add: w' Cons_nth_drop_Suc)
  have t: "take W (drop w ul) = take W' (drop w ul) @ [ul ! (w + W')]"
    using lt(2) assms by (simp add: W' take_Suc_conv_app_nth)
  show "int (count_list (take W (drop w ul)) u)
           = int (count_list (take W (drop (w - 1) ul)) u)
             - (if ul ! (w - 1) = u then 1 else 0)
             + (if ul ! (w + W - 1) = u then 1 else 0)"
    unfolding t by (simp add: w' d W')
  have "take (w + W) ul = take (w + W') ul @ [ul ! (w + W')]"
    using assms by (simp add: W' take_Suc_conv_app_nth)
  then show "set (take (w + W) ul) = insert (ul ! (w + W - 1)) (set (take (w - 1 + W) ul))"
    by (simp add: w' W')
  have "w' < length (take (w' + W) ul)" using assms w' W' by simp
  then have "take (w' + W) ul ! w' \<in> set (take (w' + W) ul)" by (rule nth_mem)
  then show "ul ! (w - 1) \<in> set (take (w - 1 + W) ul)" by (simp add: w' W')
  show "set (take W (drop (w - 1) ul)) \<subseteq> set (take (w - 1 + W) ul)"
    by (metis add.commute set_drop_subset take_drop)
qed

lemma window_loop_invariant:
  fixes ul :: "'c list" and text_of :: "nat \<Rightarrow> 'r"
  assumes inj: "inj_on text_of {1..b}" and W: "1 \<le> W"
    and a: "1 \<le> a" "a \<le> b" "b + W \<le> length ul + 1"
    and WF: "distinct (map fst fr)"
      "\<forall>u. map_of fr u =
         (if u \<in> set (take (a - 1 + W) ul)
          then Some (int (count_list (take W (drop (a - 1) ul)) u)) else None)"
    and FR: "distinct (map fst freq)"
      "\<forall>r u v. map_of freq (r, u) = Some v \<longleftrightarrow>
         (\<exists>w < a. r = text_of (w + 1) \<and> u \<in> set (take (w + W) ul)
            \<and> v = int (count_list (take W (drop w ul)) u))"
  shows "\<exists>freq'. window_loop text_of ul W [a..<b] fr freq a = Inr (freq', b) \<and>
           distinct (map fst freq') \<and>
           (\<forall>r u v. map_of freq' (r, u) = Some v \<longleftrightarrow>
              (\<exists>w < b. r = text_of (w + 1) \<and> u \<in> set (take (w + W) ul)
                 \<and> v = int (count_list (take W (drop w ul)) u)))"
  using a WF FR
proof (induction "b - a" arbitrary: a fr freq)
  case 0
  then have "a = b" by simp
  with "0.prems" show ?case by simp
next
  case (Suc n)
  define cnt where "cnt = (\<lambda>w u. int (count_list (take W (drop w ul)) u))"
  define seen where "seen = (\<lambda>w. set (take (w + W) ul))"
  have WFa: "distinct (map fst fr)"
    "\<forall>u. map_of fr u = (if u \<in> seen (a - 1) then Some (cnt (a - 1) u) else None)"
    using Suc.prems(4,5) by (simp_all add: cnt_def seen_def)
  have FRa: "distinct (map fst freq)"
    "\<forall>r u v. map_of freq (r, u) = Some v \<longleftrightarrow>
       (\<exists>w < a. r = text_of (w + 1) \<and> u \<in> seen w \<and> v = cnt w u)"
    using Suc.prems(6,7) by (simp_all add: cnt_def seen_def)
  from Suc.hyps(2) Suc.prems(2) have ab: "a < b" by simp
  with Suc.prems(3) have aW: "a + W \<le> length ul" by simp
  note slide = window_slide [OF Suc.prems(1) aW W]
  have inj_neq: "text_of (a + 1) \<noteq> text_of w" if "1 \<le> w" "w \<le> a" for w
  proof
    assume "text_of (a + 1) = text_of w"
    moreover have "a + 1 \<in> {1..b}" "w \<in> {1..b}" using ab that by simp_all
    ultimately have "a + 1 = w" using inj by (auto dest: inj_onD)
    with that show False by simp
  qed
  let ?leaving = "ul ! (a - 1)"
  let ?new = "ul ! (a + W - 1)"
  have leaving: "map_of fr ?leaving = Some (cnt (a - 1) ?leaving)"
    using WFa(2) slide(3) by (simp add: seen_def)
  define fr1 where "fr1 = AList.update ?leaving (cnt (a - 1) ?leaving - 1) fr"
  define fr2 where "fr2 = window_freq_add fr1 ?new"
  define freq2 where "freq2 = dict_update freq (window_items (text_of (a + 1)) fr2)"
  have d2: "distinct (map fst fr2)"
    using WFa(1) by (simp add: fr2_def fr1_def window_freq_add_def distinct_update)
  have unseen: "cnt (a - 1) u = 0" if "u \<notin> seen (a - 1)" for u
    using that slide(4) by (auto simp: cnt_def seen_def count_list_0_iff)
  have step: "cnt a u = cnt (a - 1) u - (if ?leaving = u then 1 else 0) + (if ?new = u then 1 else 0)"
    for u
    using slide(1) [of u] by (simp add: cnt_def)
  have seen_a: "seen a = insert ?new (seen (a - 1))"
    using slide(2) by (simp add: seen_def)
  have fr2: "map_of fr2 u = (if u \<in> seen a then Some (cnt a u) else None)" for u
  proof -
    have 1: "map_of fr1 u = (if u = ?leaving then Some (cnt (a - 1) u - 1) else map_of fr u)"
      by (simp add: fr1_def update_conv')
    have 2: "map_of fr2 u
        = (if u = ?new then Some ((case map_of fr1 ?new of None \<Rightarrow> 0 | Some n \<Rightarrow> n) + 1)
           else map_of fr1 u)"
      by (simp add: fr2_def window_freq_add_def update_conv')
    have L: "?leaving \<in> seen (a - 1)" using slide(3) by (simp add: seen_def)
    show ?thesis
    proof (cases "u = ?new")
      case True
      show ?thesis
      proof (cases "?new = ?leaving")
        case eq: True
        with True 1 2 step [of u] seen_a show ?thesis by simp
      next
        case ne: False
        show ?thesis
        proof (cases "?new \<in> seen (a - 1)")
          case s: True
          with True ne 1 2 step [of u] seen_a WFa(2) show ?thesis by auto
        next
          case s: False
          with True ne 1 2 step [of u] seen_a WFa(2) unseen [of ?new] show ?thesis by auto
        qed
      qed
    next
      case False
      with 1 2 step [of u] seen_a WFa(2) L show ?thesis by auto
    qed
  qed
  have freq2: "map_of freq2 (r, u) = Some v \<longleftrightarrow>
      (\<exists>w < a + 1. r = text_of (w + 1) \<and> u \<in> seen w \<and> v = cnt w u)" for r u v
  proof -
    have new_row: "map_of (window_items (text_of (a + 1)) fr2) (r, u)
        = (if r = text_of (a + 1) then map_of fr2 u else None)"
      by (simp add: window_items_eq [OF d2] map_of_window_row)
    have dw: "distinct (map fst (window_items (text_of (a + 1)) fr2))"
      unfolding window_items_def by (rule distinct_dict_update) simp
    have old: "map_of freq (text_of (a + 1), u) = None"
    proof (cases "map_of freq (text_of (a + 1), u)")
      case (Some v')
      with FRa(2) obtain w where "w < a" "text_of (a + 1) = text_of (w + 1)" by blast
      with inj_neq [of "w + 1"] have False by simp
      then show ?thesis ..
    qed simp
    have "map_of freq2 (r, u)
        = (if r = text_of (a + 1) then map_of fr2 u else map_of freq (r, u))"
      unfolding freq2_def map_of_dict_update [OF dw] new_row
      using old by (simp split: option.splits)
    moreover have "(\<exists>w < a + 1. r = text_of (w + 1) \<and> u \<in> seen w \<and> v = cnt w u)
        \<longleftrightarrow> (r = text_of (a + 1) \<and> u \<in> seen a \<and> v = cnt a u)
            \<or> (\<exists>w < a. r = text_of (w + 1) \<and> u \<in> seen w \<and> v = cnt w u)"
      by (auto simp: less_Suc_eq)
    moreover have "\<not> (\<exists>w < a. text_of (a + 1) = text_of (w + 1) \<and> u \<in> seen w \<and> v = cnt w u)"
      using inj_neq by fastforce
    ultimately show ?thesis using FRa(2) fr2 by auto
  qed
  have dfreq2: "distinct (map fst freq2)"
    unfolding freq2_def by (rule distinct_dict_update) (rule FRa(1))
  have n: "n = b - (a + 1)" using Suc.hyps(2) by simp
  have "\<exists>freq'. window_loop text_of ul W [a + 1..<b] fr2 freq2 (a + 1) = Inr (freq', b) \<and>
           distinct (map fst freq') \<and>
           (\<forall>r u v. map_of freq' (r, u) = Some v \<longleftrightarrow>
              (\<exists>w < b. r = text_of (w + 1) \<and> u \<in> set (take (w + W) ul)
                 \<and> v = int (count_list (take W (drop w ul)) u)))"
  proof (rule Suc.hyps(1) [OF n])
    show "1 \<le> a + 1" by simp
    show "a + 1 \<le> b" using ab by simp
    show "b + W \<le> length ul + 1" by (rule Suc.prems(3))
    show "distinct (map fst fr2)" by (rule d2)
    show "\<forall>u. map_of fr2 u =
         (if u \<in> set (take (a + 1 - 1 + W) ul)
          then Some (int (count_list (take W (drop (a + 1 - 1) ul)) u)) else None)"
      using fr2 by (simp add: seen_def cnt_def)
    show "distinct (map fst freq2)" by (rule dfreq2)
    show "\<forall>r u v. map_of freq2 (r, u) = Some v \<longleftrightarrow>
         (\<exists>w < a + 1. r = text_of (w + 1) \<and> u \<in> set (take (w + W) ul)
            \<and> v = int (count_list (take W (drop w ul)) u))"
      using freq2 by (simp add: seen_def cnt_def)
  qed
  moreover have "window_loop text_of ul W [a..<b] fr freq a
      = window_loop text_of ul W [a + 1..<b] fr2 freq2 (a + 1)"
    using ab leaving
    by (simp add: upt_conv_Cons Let_def fr1_def fr2_def freq2_def)
  ultimately show ?case by simp
qed

lemma todense_dok_setitem:
  assumes "dok_setitem d (i, j) v = Inr d'"
  shows "shape d' = shape d"
    and "elem (todense d') i' j' = (if (i', j') = (i, j) then v else elem (todense d) i' j')"
  using assms
  by (auto simp: dok_setitem_def todense_def update_conv' delete_conv' split: if_splits)

lemma fill_dok_todense:
  assumes "\<forall>kv \<in> set vals. \<exists>i j. rm (fst (fst kv)) = Some i \<and> cm (snd (fst kv)) = Some j
             \<and> i < fst (shape d) \<and> j < snd (shape d)"
    and "distinct (map fst vals)"
    and "\<forall>r r' i. rm r = Some i \<and> rm r' = Some i \<longrightarrow> r = r'"
    and "\<forall>c c' j. cm c = Some j \<and> cm c' = Some j \<longrightarrow> c = c'"
  shows "\<exists>d'. fill_dok rm cm vals d = Inr d' \<and> shape d' = shape d \<and>
           (\<forall>r c i j. rm r = Some i \<longrightarrow> cm c = Some j \<longrightarrow>
              elem (todense d') i j
                = (case map_of vals (r, c) of Some v \<Rightarrow> v | None \<Rightarrow> elem (todense d) i j))"
  using assms(1,2)
proof (induction vals arbitrary: d)
  case Nil
  show ?case by simp
next
  case (Cons kv vals)
  obtain r0 c0 v0 where kv: "kv = ((r0, c0), v0)" by (cases kv) auto
  from Cons.prems(1) kv obtain i0 j0 where ij: "rm r0 = Some i0" "cm c0 = Some j0"
    "i0 < fst (shape d)" "j0 < snd (shape d)" by auto
  then have "\<exists>d1. dok_setitem d (i0, j0) v0 = Inr d1"
    by (simp add: dok_setitem_def in_shape_def)
  then obtain d1 where d1: "dok_setitem d (i0, j0) v0 = Inr d1" ..
  note set = todense_dok_setitem [OF d1]
  have b: "\<forall>kv \<in> set vals. \<exists>i j. rm (fst (fst kv)) = Some i \<and> cm (snd (fst kv)) = Some j
             \<and> i < fst (shape d1) \<and> j < snd (shape d1)"
    using Cons.prems(1) set(1) by simp
  have dist: "distinct (map fst vals)" and fresh: "map_of vals (r0, c0) = None"
    using Cons.prems(2) kv by (simp_all add: map_of_eq_None_iff)
  from Cons.IH [OF b dist] obtain d' where d': "fill_dok rm cm vals d1 = Inr d'"
    "shape d' = shape d1"
    "\<And>r c i j. rm r = Some i \<Longrightarrow> cm c = Some j \<Longrightarrow>
        elem (todense d') i j
          = (case map_of vals (r, c) of Some v \<Rightarrow> v | None \<Rightarrow> elem (todense d1) i j)"
    by blast
  have "fill_dok rm cm (kv # vals) d = Inr d'" using kv ij d1 d'(1) by simp
  moreover have "shape d' = shape d" using d'(2) set(1) by simp
  moreover have "elem (todense d') i j
      = (case map_of (kv # vals) (r, c) of Some v \<Rightarrow> v | None \<Rightarrow> elem (todense d) i j)"
    if rc: "rm r = Some i" "cm c = Some j" for r c i j
  proof (cases "(r, c) = (r0, c0)")
    case True
    with rc ij have "(i, j) = (i0, j0)" by simp
    with d'(3) [OF rc] True fresh set(2) [of i j] kv show ?thesis by simp
  next
    case False
    with rc ij assms(3,4) have "(i, j) \<noteq> (i0, j0)" by blast
    then have "elem (todense d1) i j = elem (todense d) i j" using set(2) [of i j] by auto
    with d'(3) [OF rc] False kv show ?thesis by (auto split: option.splits)
  qed
  ultimately show ?case by blast
qed

lemma set_window_subset: "set (take W (drop k ul)) \<subseteq> set (take (k + W) ul)"
  by (metis add.commute set_drop_subset take_drop)

lemma count_units_in_window_counts:
  fixes ul :: "'c list" and text_of :: "nat \<Rightarrow> 'r"
  assumes inj: "inj_on text_of {1..length ul - W + 1}"
    and W: "1 \<le> W" and WL: "W \<le> length ul"
    and dt: "distinct types" and st: "set types = set ul"
  shows "\<exists>T. count_units_in_window text_of types ul W = Inr T \<and> col_ids T = types \<and>
           col_mapping T = enum_mapping types \<and>
           shape (cells T) = (length ul - W + 1, length types) \<and>
           (\<forall>k j. k < length ul - W + 1 \<longrightarrow> j < length types \<longrightarrow>
              elem (todense (cells T)) k j = int (count_list (take W (drop k ul)) (types ! j)))"
proof -
  define N where "N = length ul - W + 1"
  define M where "M = length types"
  define cnt where "cnt = (\<lambda>w u. int (count_list (take W (drop w ul)) u))"
  define seen where "seen = (\<lambda>w. set (take (w + W) ul))"
  define rows where "rows = map text_of [1..<N + 1]"
  have range: "length ul - (W - 1) = N" using W WL by (simp add: N_def)
  have N: "1 \<le> N" "N + W \<le> length ul + 1" using W WL by (simp_all add: N_def)
  have inj': "inj_on text_of {1..N}" using inj by (simp add: N_def)
  define fr0 where "fr0 = fold (\<lambda>u fr. window_freq_add fr u) (take W ul) []"
  define freq0 where "freq0 = window_items (text_of 1) fr0"
  have d0: "distinct (map fst fr0)"
    using fold_window_freq_add [of "take W ul" "[]"] by (simp add: fr0_def)
  have m0: "\<forall>u. map_of fr0 u =
      (if u \<in> set (take (1 - 1 + W) ul)
       then Some (int (count_list (take W (drop (1 - 1) ul)) u)) else None)"
    using fold_window_freq_add [of "take W ul" "[]"] by (simp add: fr0_def)
  have freq0_eq: "freq0 = map (\<lambda>(k, v). ((text_of 1, k), v)) fr0"
    by (simp add: freq0_def window_items_eq [OF d0])
  have df0: "distinct (map fst freq0)"
    unfolding freq0_def window_items_def by (rule distinct_dict_update) simp
  have mf0: "\<forall>r u v. map_of freq0 (r, u) = Some v \<longleftrightarrow>
      (\<exists>w < 1. r = text_of (w + 1) \<and> u \<in> set (take (w + W) ul)
         \<and> v = int (count_list (take W (drop w ul)) u))"
    using m0 by (auto simp: freq0_eq map_of_window_row)
  have one: "(1::nat) \<le> 1" by simp
  from window_loop_invariant [OF inj' W one N(1) N(2) d0 m0 df0 mf0]
  obtain freq' where loop: "window_loop text_of ul W [1..<N] fr0 freq0 1 = Inr (freq', N)"
    and df: "distinct (map fst freq')"
    and mf: "\<And>r u v. map_of freq' (r, u) = Some v \<longleftrightarrow>
               (\<exists>w < N. r = text_of (w + 1) \<and> u \<in> seen w \<and> v = cnt w u)"
    unfolding seen_def cnt_def by blast
  have mfI: "map_of freq' (text_of (w + 1), u) = Some (cnt w u)" if "w < N" "u \<in> seen w" for w u
    using that mf [of "text_of (w + 1)" u "cnt w u"] by blast
  have "set [1..<N + 1] = {1..N}" by auto
  then have drows: "distinct rows"
    unfolding rows_def using inj' by (simp only: distinct_map distinct_upt simp_thms)
  have rows_nth: "rows ! k = text_of (k + 1)" if "k < N" for k
    using that by (simp add: rows_def del: upt_Suc)
  have len_rows: "length rows = N" by (simp add: rows_def del: upt_Suc)
  have rm: "enum_mapping rows (text_of (k + 1)) = Some k" if "k < N" for k
    using that rows_nth by (simp add: enum_mapping_distinct [OF drows] len_rows)
  have cm: "enum_mapping types (types ! j) = Some j" if "j < M" for j
    using that by (simp add: enum_mapping_distinct [OF dt] M_def)
  have rm_inj: "\<forall>r r' i. enum_mapping rows r = Some i \<and> enum_mapping rows r' = Some i \<longrightarrow> r = r'"
    by (auto simp: enum_mapping_distinct [OF drows])
  have cm_inj: "\<forall>c c' j. enum_mapping types c = Some j \<and> enum_mapping types c' = Some j \<longrightarrow> c = c'"
    by (auto simp: enum_mapping_distinct [OF dt])
  have seen_sub: "seen w \<subseteq> set types" for w
    unfolding seen_def st by (rule set_take_subset)
  have bounds: "\<forall>kv \<in> set freq'. \<exists>i j. enum_mapping rows (fst (fst kv)) = Some i
      \<and> enum_mapping types (snd (fst kv)) = Some j
      \<and> i < fst (shape (dok_matrix N M :: int dok)) \<and> j < snd (shape (dok_matrix N M :: int dok))"
  proof
    fix kv assume kv: "kv \<in> set freq'"
    obtain r u v where eq: "kv = ((r, u), v)" by (cases kv) auto
    with kv df have "map_of freq' (r, u) = Some v" by simp
    with mf obtain w where w: "w < N" "r = text_of (w + 1)" "u \<in> seen w" by blast
    from w(3) seen_sub have "u \<in> set types" by blast
    then obtain j where j: "j < M" "types ! j = u" by (auto simp: in_set_conv_nth M_def)
    from rm [OF w(1)] cm [OF j(1)] w j eq
    show "\<exists>i j. enum_mapping rows (fst (fst kv)) = Some i
      \<and> enum_mapping types (snd (fst kv)) = Some j
      \<and> i < fst (shape (dok_matrix N M :: int dok)) \<and> j < snd (shape (dok_matrix N M :: int dok))"
      by (simp add: dok_matrix_def)
  qed
  from fill_dok_todense [OF bounds df rm_inj cm_inj]
  obtain d' where raw: "fill_dok (enum_mapping rows) (enum_mapping types) freq' (dok_matrix N M) = Inr d'"
    "shape d' = shape (dok_matrix N M :: int dok)"
    "\<And>r c i j. enum_mapping rows r = Some i \<Longrightarrow> enum_mapping types c = Some j \<Longrightarrow>
        elem (todense d') i j
          = (case map_of freq' (r, c) of Some v \<Rightarrow> v
             | None \<Rightarrow> elem (todense (dok_matrix N M :: int dok)) i j)"
    by blast
  have empty: "elem (todense (dok_matrix N M :: int dok)) i j = 0" for i j
    by (simp add: dok_matrix_def todense_def)
  have d': "fill_dok (enum_mapping rows) (enum_mapping types) freq' (dok_matrix N M) = Inr d'"
    "shape d' = (N, M)"
    "\<And>r c i j. enum_mapping rows r = Some i \<Longrightarrow> enum_mapping types c = Some j \<Longrightarrow>
        elem (todense d') i j = (case map_of freq' (r, c) of Some v \<Rightarrow> v | None \<Rightarrow> 0)"
  proof -
    show "fill_dok (enum_mapping rows) (enum_mapping types) freq' (dok_matrix N M) = Inr d'"
      by (rule raw(1))
    show "shape d' = (N, M)" using raw(2) by (simp add: dok_matrix_def)
    show "elem (todense d') i j = (case map_of freq' (r, c) of Some v \<Rightarrow> v | None \<Rightarrow> 0)"
      if "enum_mapping rows r = Some i" "enum_mapping types c = Some j" for r c i j
      using raw(3) [OF that] by (simp add: empty cong: option.case_cong)
  qed
  have first: "ul ! 0 \<in> seen 0"
  proof -
    have "0 < length (take W ul)" using W WL by simp
    then have "take W ul ! 0 \<in> set (take W ul)" by (rule nth_mem)
    then show ?thesis using W by (simp add: seen_def)
  qed
  have "map_of freq' (text_of (0 + 1), ul ! 0) = Some (cnt 0 (ul ! 0))"
    using first N(1) by (intro mfI) simp_all
  then have nonempty: "freq' \<noteq> []" by auto
  define T where "T = \<lparr>row_ids = rows, col_ids = types, cells = d',
                    header_row_id = ''__unit__'', header_row_type = ''string'',
                    header_col_id = ''__context__'', header_col_type = ''continuous'',
                    col_type = const_dict types ''continuous'', class_col_id = None,
                    missing = Some (0::int), cached_row_id = None,
                    row_mapping = enum_mapping rows, col_mapping = enum_mapping types\<rparr>"
  have cu: "count_units_in_window text_of types ul W
      = (case window_loop text_of ul W [1..<N] fr0 freq0 1 of
           Inl e \<Rightarrow> Inl e
         | Inr (freq', window_type) \<Rightarrow>
             Table_of_dict (map text_of [1..<window_type + 1]) types freq'
               ''__unit__'' ''string'' ''__context__'' ''continuous''
               (const_dict types ''continuous'') None (Some 0) None)"
    using W WL unfolding count_units_in_window_def Let_def range fr0_def freq0_def by simp
  have tab: "Table_of_dict rows types freq'
               ''__unit__'' ''string'' ''__context__'' ''continuous''
               (const_dict types ''continuous'') None (Some 0) None = Inr T"
    using nonempty d'(1) by (simp add: Table_of_dict_def len_rows M_def [symmetric] T_def)
  have "count_units_in_window text_of types ul W = Inr T"
    unfolding cu loop using tab by (simp only: sum.case prod.case rows_def)
  moreover have "elem (todense (cells T)) k j = cnt k (types ! j)" if k: "k < N" and j: "j < M" for k j
  proof -
    let ?u = "types ! j"
    have e: "elem (todense d') k j = (case map_of freq' (text_of (k + 1), ?u) of Some v \<Rightarrow> v | None \<Rightarrow> 0)"
      by (rule d'(3) [OF rm [OF k] cm [OF j]])
    show ?thesis
    proof (cases "?u \<in> seen k")
      case True
      with k have "map_of freq' (text_of (k + 1), ?u) = Some (cnt k ?u)" by (intro mfI)
      with e show ?thesis by (simp add: T_def)
    next
      case False
      have "map_of freq' (text_of (k + 1), ?u) = None"
      proof (cases "map_of freq' (text_of (k + 1), ?u)")
        case (Some v)
        with mf obtain w where w: "w < N" "text_of (k + 1) = text_of (w + 1)" "?u \<in> seen w" by blast
        from w(1,2) k inj' have "k + 1 = w + 1" by (auto dest!: inj_onD)
        with w(3) False show ?thesis by simp
      qed simp
      moreover from False set_window_subset [of W k ul] have "cnt k ?u = 0"
        by (auto simp: cnt_def seen_def count_list_0_iff)
      ultimately show ?thesis using e by (simp add: T_def)
    qed
  qed
  moreover have "col_ids T = types" "col_mapping T = enum_mapping types" "shape (cells T) = (N, M)"
    using d'(2) by (simp_all add: T_def)
  ultimately show ?thesis unfolding N_def M_def cnt_def by blast
qed

lemma length_unit_list_of:
  "unit_list_of data key segs = Inr units \<Longrightarrow> length units = length segs"
  by (induction segs arbitrary: units) (auto split: sum.splits option.splits)

lemma todense_dok_of_array:
  "elem (todense (dok_of_array a)) i j = (if i < nrows a \<and> j < ncols a then elem a i j else 0)"
  "nrows (todense (dok_of_array a)) = nrows a"
  "ncols (todense (dok_of_array a)) = ncols a"
  by (simp_all add: todense_def map_of_dok_of_array) (simp_all add: dok_of_array_def)

lemma to_numpy_presence_absence:
  "nrows (to_numpy (to_normalized_presence_absence T)) = fst (shape (cells T))"
  "ncols (to_numpy (to_normalized_presence_absence T)) = snd (shape (cells T))"
  "elem (to_numpy (to_normalized_presence_absence T)) i j
     = (if i < fst (shape (cells T)) \<and> j < snd (shape (cells T))
           \<and> elem (todense (cells T)) i j \<noteq> 0 then 1 else 0)"
  by (simp_all add: to_numpy_def to_normalized_presence_absence_def todense_dok_of_array Let_def)

lemma sum_list_indicator:
  "(\<Sum>k\<leftarrow>xs. if P k then 1 else 0) = (of_nat (length (filter P xs)) :: 'a::semiring_1)"
  by (induction xs) simp_all

text \<open>
  The array that \<^verbatim>\<open>cooc_in_window\<close> computes: for a segmentation of at least \<open>W \<ge> 1\<close>
  units, \<^verbatim>\<open>count_in_window\<close> returns a table, and the product of its transposed presence
  matrix with the presence matrix has, at the column of every unit type \<open>u\<close>, the number
  of the windows of \<open>W\<close> consecutive units in which \<open>u\<close> occurs.
\<close>

lemma window_cooc_array_diagonal:
  fixes text_of :: "nat \<Rightarrow> 'r"
  assumes units: "unit_list_of data key (buffer S) = Inr units"
    and W: "1 \<le> W" "W \<le> length (buffer S)"
    and inj: "inj_on text_of {1..length units - W + 1}"
    and order: "distinct (set_order units)" "set (set_order units) = set units"
    and u: "u \<in> set units"
  shows "\<exists>C j. count_in_window text_of set_order data S key W = Inr C \<and>
           j < length (col_ids C) \<and> col_ids C ! j = u \<and>
           elem (np_dot (np_transpose (to_numpy (to_normalized_presence_absence C)))
                        (to_numpy (to_normalized_presence_absence C))) j j
             = real (length (filter (\<lambda>i. u \<in> set (take W (drop i units)))
                                    [0..<length units - W + 1]))"
proof -
  define N where "N = length units - W + 1"
  define types where "types = set_order units"
  define M where "M = length types"
  have len: "length units = length (buffer S)" by (rule length_unit_list_of [OF units])
  with W have WL: "W \<le> length units" by simp
  from count_units_in_window_counts [OF inj W(1) WL order]
  obtain C where C: "count_units_in_window text_of types units W = Inr C"
    "col_ids C = types" "shape (cells C) = (N, M)"
    and counts: "\<And>k j. k < N \<Longrightarrow> j < M \<Longrightarrow>
        elem (todense (cells C)) k j = int (count_list (take W (drop k units)) (types ! j))"
    unfolding N_def M_def types_def by blast
  have ciw: "count_in_window text_of set_order data S key W = Inr C"
    using W units C(1) by (simp add: count_in_window_def types_def)
  define P where "P = to_numpy (to_normalized_presence_absence C)"
  define cooc where "cooc = np_dot (np_transpose P) P"
  from u order(2) have "u \<in> set types" by (simp add: types_def)
  then obtain j where j: "j < M" "types ! j = u" by (auto simp: in_set_conv_nth M_def)
  have P: "nrows P = N"
    "\<And>k. k < N \<Longrightarrow> elem P k j = (if u \<in> set (take W (drop k units)) then 1 else 0)"
    using j counts
    by (simp_all add: P_def to_numpy_presence_absence C(3) count_list_0_iff)
  let ?in_window = "\<lambda>i. u \<in> set (take W (drop i units))"
  have "map (\<lambda>k. elem P k j * elem P k j) [0..<N]
      = map (\<lambda>k. if ?in_window k then 1 else 0) [0..<N]"
    using P(2) by simp
  then have "(\<Sum>k\<leftarrow>[0..<N]. elem P k j * elem P k j) = real (length (filter ?in_window [0..<N]))"
    by (simp only: sum_list_indicator)
  moreover have "elem cooc j j = (\<Sum>k\<leftarrow>[0..<N]. elem P k j * elem P k j)"
    by (simp add: cooc_def np_dot_def np_transpose_def P(1))
  ultimately have "elem cooc j j = real (length (filter ?in_window [0..<N]))"
    by simp
  with ciw j C(2) show ?thesis unfolding N_def M_def cooc_def P_def by blast
qed

lemma cooc_in_window_no_table:
  "\<exists>e. cooc_in_window text_of set_order data S key W = Inl e"
  by (simp add: cooc_in_window_def IntPivotCrosstab_from_numpy_def Let_def split: sum.splits)

lemma letters_units:
  "unit_list_of [Str ''un texte''] None (buffer letters)
     = Inr [PyStr ''u'', PyStr ''n'', PyStr ''t'', PyStr ''e'', PyStr ''x'', PyStr ''t'',
            PyStr ''e'']"
  by code_simp

lemma window_cooc_array_diagonal_letters:
  "\<exists>C j. count_in_window text_of_nat remdups [Str ''un texte''] letters None 3 = Inr C \<and>
         j < length (col_ids C) \<and> col_ids C ! j = PyStr ''t'' \<and>
         elem (np_dot (np_transpose (to_numpy (to_normalized_presence_absence C)))
                      (to_numpy (to_normalized_presence_absence C))) j j = 5"
proof -
  let ?units = "[PyStr ''u'', PyStr ''n'', PyStr ''t'', PyStr ''e'', PyStr ''x'', PyStr ''t'',
                 PyStr ''e'']"
  have W: "(1::nat) \<le> 3" "3 \<le> length (buffer letters)"
    by (simp_all add: letters_def)
  have "distinct (map text_of_nat [1..<6])" by code_simp
  moreover have "set [1..<6] = {1..length ?units - 3 + 1}" by auto
  ultimately have inj: "inj_on text_of_nat {1..length ?units - 3 + 1}"
    by (simp only: distinct_map)
  have order: "distinct (remdups ?units)" "set (remdups ?units) = set ?units"
    by (rule distinct_remdups) (rule set_remdups)
  have u: "PyStr ''t'' \<in> set ?units" by simp
  have n: "real (length (filter (\<lambda>i. PyStr ''t'' \<in> set (take 3 (drop i ?units)))
                          [0..<length ?units - 3 + 1])) = 5"
    by code_simp
  from window_cooc_array_diagonal [where set_order = remdups, OF letters_units W inj order u]
  show ?thesis unfolding n .
qed

text \<open>
  C8. On the seven letters of \<^verbatim>\<open>"un texte"\<close> with windows of three letters, the input of
  the test of \<^verbatim>\<open>cooc_in_window\<close>, the function returns no table: the product array, which
  has the expected 5 at the column of \<^verbatim>\<open>t\<close>, is an array of floating-point numbers, and
  \<^verbatim>\<open>IntPivotCrosstab.from_numpy\<close> refuses it with a ValueError.
\<close>

theorem cooc_in_window_ValueError:
  "cooc_in_window text_of_nat remdups [Str ''un texte''] letters None 3 = Inl ValueError"
proof -
  from window_cooc_array_diagonal_letters obtain C
    where "count_in_window text_of_nat remdups [Str ''un texte''] letters None 3 = Inr C"
    by blast
  then show ?thesis
    by (simp add: cooc_in_window_def IntPivotCrosstab_from_numpy_def Let_def)
qed

end
